theory Spec2Isabelle
  imports Main "HOL-Library.Word" "HOL-Library.Multiset" "HOL-Library.Sublist"
begin

unbundle bit_operations_syntax

section \<open>Data model\<close>

text \<open>
  A Polyglot record, as \<^verbatim>\<open>PolyEntry\<close> is used throughout \<^verbatim>\<open>parser.cpp\<close>: a 64-bit
  key, a 16-bit move (\<^verbatim>\<open>PMove\<close>), a 16-bit weight and a 32-bit learn field. The record
  table \<^verbatim>\<open>Keys\<close> is a \<^verbatim>\<open>std::vector<PolyEntry>\<close>, here a list.
\<close>

record PolyEntry =
  key :: "64 word"
  move :: "16 word"
  weight :: "16 word"
  learn :: "32 word"

type_synonym Keys = "PolyEntry list"

text \<open>
  Memory faults and failed assertions of the C++ code are values of the model: a
  function that can read outside the mapped file, overflow one of the fixed buffers
  or fail an \<^verbatim>\<open>assert\<close> returns \<open>Inl\<close> of the fault.
\<close>

datatype fault =
  OutOfBounds | StackOverflow | StackUnderflow | FenOverflow | MovesOverflow | AssertFailed

text \<open>
  The mapped PGN file is a list of bytes; a \<^verbatim>\<open>const char*\<close> into it is an index.
  \<open>peek\<close> is a dereference: it faults outside the mapping.
\<close>

definition peek :: "string \<Rightarrow> int \<Rightarrow> fault + char" where
  "peek mem i =
     (if 0 \<le> i \<and> i < int (length mem) then Inr (mem ! nat i) else Inl OutOfBounds)"

section \<open>Result tokens\<close>

text \<open>
  \<^verbatim>\<open>get_result(const char* data)\<close>. The two disjunctions of the source are evaluated
  left to right with short circuit, so \<^verbatim>\<open>*(data-2)\<close> is read only when
  \<^verbatim>\<open>*(data-1)\<close> is a space.
\<close>

definition get_result :: "string \<Rightarrow> int \<Rightarrow> fault + int" where
  "get_result mem d =
     (case peek mem d of
        Inl f \<Rightarrow> Inl f
      | Inr c \<Rightarrow>
          if c = CHR ''/'' then Inr 2
          else if c = CHR ''0'' then Inr 1
          else if c = CHR ''-'' then
            (case peek mem (d - 1) of
               Inl f \<Rightarrow> Inl f
             | Inr p1 \<Rightarrow>
                 if p1 = CHR ''1'' then Inr 0
                 else if p1 = CHR '' '' then
                   (case peek mem (d - 2) of
                      Inl f \<Rightarrow> Inl f
                    | Inr p2 \<Rightarrow>
                        if p2 = CHR ''1'' then Inr 0
                        else if p2 = CHR ''0'' then Inr 1
                        else Inr 3)
                 else if p1 = CHR ''0'' then Inr 1
                 else Inr 3)
          else Inr 3)"

text \<open>
  The spec's wording: a byte is preceded by \<open>x\<close>, optionally with one intervening space.
\<close>

definition preceded_by :: "string \<Rightarrow> int \<Rightarrow> char \<Rightarrow> bool" where
  "preceded_by mem d x \<longleftrightarrow>
     peek mem (d - 1) = Inr x \<or>
     (peek mem (d - 1) = Inr CHR '' '' \<and> peek mem (d - 2) = Inr x)"

text \<open>
  The bytes before the cursor that \<^verbatim>\<open>get_result\<close> reads on a minus sign lie inside the
  mapping.
\<close>

definition lookbehind_mapped :: "string \<Rightarrow> int \<Rightarrow> bool" where
  "lookbehind_mapped mem d \<longleftrightarrow>
     (case peek mem (d - 1) of
        Inl f \<Rightarrow> False
      | Inr p1 \<Rightarrow>
          p1 = CHR '' '' \<longrightarrow> (case peek mem (d - 2) of Inl f \<Rightarrow> False | Inr p2 \<Rightarrow> True))"

section \<open>Serialisation\<close>

text \<open>
  \<^verbatim>\<open>template<typename T> uint8_t* write(const T& n, uint8_t* data)\<close>: the loop runs
  \<^verbatim>\<open>i\<close> from \<^verbatim>\<open>8 * (sizeof(T) - 1)\<close> down to 0 in steps of 8 and stores
  \<^verbatim>\<open>uint8_t(n >> i)\<close>. \<open>write_be k n\<close> is the loop with \<open>k\<close> bytes left to
  store; \<^verbatim>\<open>sizeof(T)\<close> is the width of the word in bytes.
\<close>

fun write_be :: "nat \<Rightarrow> 'a::len word \<Rightarrow> 8 word list" where
  "write_be 0 n = []"
| "write_be (Suc k) n = ucast (drop_bit (8 * k) n) # write_be k n"

text \<open>(\<open>write\<close> is a keyword of Isar, hence the suffix.)\<close>

definition write_num :: "'a::len word \<Rightarrow> 8 word list" where
  "write_num n = write_be (LENGTH('a) div 8) n"

text \<open>The specialisation for \<^verbatim>\<open>PolyEntry\<close>: key, move, weight, learn, in this order.\<close>

definition write_PolyEntry :: "PolyEntry \<Rightarrow> 8 word list" where
  "write_PolyEntry e = write_num (key e) @ write_num (move e) @ write_num (weight e) @ write_num (learn e)"

text \<open>
  Modelled from the spec: \<^verbatim>\<open>SizeOfPolyEntry\<close> is declared in \<^verbatim>\<open>book.h\<close>, which is not
  among the sources; the spec fixes the record at 16 bytes.
\<close>

definition SizeOfPolyEntry :: nat where
  "SizeOfPolyEntry = 16"

text \<open>\<^verbatim>\<open>const PolyEntry dummy = PolyEntry()\<close>: a value-initialised record, all fields zero.\<close>

definition dummy :: PolyEntry where
  "dummy = \<lparr>key = 0, move = 0, weight = 0, learn = 0\<rparr>"

text \<open>
  The output stream \<^verbatim>\<open>std::ofstream ofs\<close>. \<^verbatim>\<open>write_poly_file\<close> does not check
  \<^verbatim>\<open>ofs.open\<close>: on a stream that failed to open every \<^verbatim>\<open>write\<close> is dropped and
  \<^verbatim>\<open>tellp()\<close> is \<open>-1\<close>. A stream is \<open>None\<close> when it failed to open, and otherwise
  the bytes written to the file so far; the file is opened with
  \<^verbatim>\<open>std::ofstream::out\<close>, so it starts empty.
\<close>

type_synonym ofstream = "8 word list option"

definition ofs_open :: "bool \<Rightarrow> ofstream" where
  "ofs_open openable = (if openable then Some [] else None)"

definition ofs_write :: "ofstream \<Rightarrow> 8 word list \<Rightarrow> ofstream" where
  "ofs_write ofs data = (case ofs of None \<Rightarrow> None | Some bytes \<Rightarrow> Some (bytes @ data))"

text \<open>\<^verbatim>\<open>size_t size = ofs.tellp()\<close>: the position, converted to a 64-bit \<^verbatim>\<open>size_t\<close>.\<close>

definition tellp :: "ofstream \<Rightarrow> 64 word" where
  "tellp ofs = (case ofs of None \<Rightarrow> - 1 | Some bytes \<Rightarrow> of_nat (length bytes))"

text \<open>
  The loop of \<^verbatim>\<open>write_poly_file\<close> over the table. \<open>prev\<close> is the entry \<^verbatim>\<open>prev\<close>
  points to, \<open>ofs\<close> the output stream. \<^verbatim>\<open>write(e, data)\<close> fills the buffer
  \<^verbatim>\<open>data\<close>, and \<^verbatim>\<open>ofs.write\<close> sends its first \<^verbatim>\<open>SizeOfPolyEntry\<close> bytes.
\<close>

fun write_loop :: "bool \<Rightarrow> PolyEntry \<Rightarrow> ofstream \<Rightarrow> Keys \<Rightarrow> ofstream" where
  "write_loop full prev ofs [] = ofs"
| "write_loop full prev ofs (e # es) =
     (if key e \<noteq> key prev \<or> move e \<noteq> move prev \<or> full
      then write_loop full e (ofs_write ofs (take SizeOfPolyEntry (write_PolyEntry e))) es
      else write_loop full prev ofs es)"

text \<open>
  \<^verbatim>\<open>write_poly_file(kTable, fname, full)\<close>. In place of the file name the model takes
  whether a file of that name can be opened for writing. It returns the stream as
  \<^verbatim>\<open>ofs.close()\<close> leaves it, that is the contents of the file, and the size the
  function returns.
\<close>

definition write_poly_file :: "Keys \<Rightarrow> bool \<Rightarrow> bool \<Rightarrow> ofstream \<times> 64 word" where
  "write_poly_file kTable openable full =
     (let ofs = write_loop full dummy (ofs_open openable) kTable in (ofs, tellp ofs))"

text \<open>The entries the loop sends to the stream, in order.\<close>

fun kept :: "bool \<Rightarrow> PolyEntry \<Rightarrow> Keys \<Rightarrow> Keys" where
  "kept full prev [] = []"
| "kept full prev (e # es) =
     (if key e \<noteq> key prev \<or> move e \<noteq> move prev \<or> full
      then e # kept full e es
      else kept full prev es)"

text \<open>
  The spec's wording of deduplication: consecutive entries with identical (key, move)
  are collapsed, only the first survives.
\<close>

fun collapse :: "Keys \<Rightarrow> Keys" where
  "collapse [] = []"
| "collapse [e] = [e]"
| "collapse (e # e' # es) =
     (if key e' = key e \<and> move e' = move e then collapse (e # es)
      else e # collapse (e' # es))"

definition zero_key_move :: "PolyEntry \<Rightarrow> bool" where
  "zero_key_move e \<longleftrightarrow> key e = 0 \<and> move e = 0"

text \<open>The value of a byte sequence read most significant byte first.\<close>

definition be_val :: "8 word list \<Rightarrow> nat" where
  "be_val bs = foldl (\<lambda>a b. 256 * a + unat b) 0 bs"

section \<open>Game replay\<close>

text \<open>
  The chess engine (\<^verbatim>\<open>position.h\<close>, \<^verbatim>\<open>types.h\<close>) is not among the sources: the
  replayer is modelled over any engine, a record of the operations \<^verbatim>\<open>parse_game\<close>
  calls on a position of type \<open>'pos\<close>. \<^verbatim>\<open>enum Move : int\<close> is an \<open>int\<close>.
  \<open>san_to_move\<close> receives the bytes from \<^verbatim>\<open>cur\<close> to \<^verbatim>\<open>end\<close> and the counter
  \<^verbatim>\<open>fixed\<close>, which it takes by reference, and returns the move with the new counter.
  \<open>is_promotion m\<close> is \<^verbatim>\<open>type_of(m) == PROMOTION\<close>; \<open>RootPos\<close> is the start position
  set up by \<^verbatim>\<open>Parser::init\<close>.
\<close>

type_synonym Move = int

record 'pos engine =
  RootPos :: 'pos
  set_fen :: "string \<Rightarrow> 'pos"
  san_to_move :: "'pos \<Rightarrow> string \<Rightarrow> nat \<Rightarrow> Move \<times> nat"
  do_move :: "'pos \<Rightarrow> Move \<Rightarrow> bool \<Rightarrow> 'pos"
  do_null_move :: "'pos \<Rightarrow> 'pos"
  gives_check :: "'pos \<Rightarrow> Move \<Rightarrow> bool"
  pos_key :: "'pos \<Rightarrow> 64 word"
  MOVE_NONE :: Move
  MOVE_NULL :: Move
  is_promotion :: "Move \<Rightarrow> bool"
  promotion_type :: "Move \<Rightarrow> int"

text \<open>\<^verbatim>\<open>to_polyglot(Move m)\<close>, with the cast to the 16-bit \<^verbatim>\<open>PMove\<close>.\<close>

definition to_polyglot :: "'pos engine \<Rightarrow> Move \<Rightarrow> 16 word" where
  "to_polyglot eng m =
     (if is_promotion eng m
      then word_of_int ((m AND 0xFFF) OR push_bit 12 (promotion_type eng m - 1))
      else word_of_int (m AND 0x3FFF))"

text \<open>
  The \<^verbatim>\<open>moves\<close> buffer holds the SAN tokens, each followed by a NUL byte. A cursor
  \<^verbatim>\<open>cur\<close> into it is the list of bytes from \<^verbatim>\<open>cur\<close> to \<^verbatim>\<open>end\<close>.
  \<open>next_move\<close> is \<^verbatim>\<open>while (*cur++) {}\<close>: it skips the bytes up to and including the
  first NUL. Where no NUL is left before \<^verbatim>\<open>end\<close> the source runs on into the stale
  part of the buffer and comes out past \<^verbatim>\<open>end\<close>; the model stops at \<^verbatim>\<open>end\<close>, and
  in both the loop condition \<^verbatim>\<open>cur < end\<close> then fails. \<open>c_str\<close> is the C string a
  buffer starts with.
\<close>

definition NUL :: char where
  "NUL = CHR 0x00"

definition next_move :: "string \<Rightarrow> string" where
  "next_move cur = drop 1 (dropWhile (\<lambda>c. c \<noteq> NUL) cur)"

definition c_str :: "string \<Rightarrow> string" where
  "c_str buf = takeWhile (\<lambda>c. c \<noteq> NUL) buf"

text \<open>
  The \<^verbatim>\<open>learn\<close> value of a game: \<^verbatim>\<open>uint32_t(result) & 3\<close> shifted within 32 bits,
  or-ed with the 64-bit \<^verbatim>\<open>(gameOfs >> 3) & 0x3FFFFFFF\<close> and stored in a
  \<^verbatim>\<open>uint32_t\<close>.
\<close>

definition make_learn :: "64 word \<Rightarrow> int \<Rightarrow> 32 word" where
  "make_learn gameOfs result =
     ucast ((ucast (push_bit 30 ((word_of_int result :: 32 word) AND 3)) :: 64 word)
            OR (drop_bit 3 gameOfs AND 0x3FFFFFFF))"

text \<open>\<^verbatim>\<open>StateInfo states[1024]\<close>: every move played takes the next slot.\<close>

definition states_size :: nat where
  "states_size = 1024"

text \<open>
  The \<^verbatim>\<open>while (cur < end)\<close> loop of \<^verbatim>\<open>parse_game\<close>. \<open>st\<close> is the index of the next
  free slot of \<^verbatim>\<open>states\<close>; a move played with no slot left writes past the array.
  The result is the returned cursor (\<open>[]\<close> for \<^verbatim>\<open>end\<close>), the table and \<^verbatim>\<open>fixed\<close>.
  With \<^verbatim>\<open>DryRun\<close> false, a rejected token also prints the diagnostic
  \<^verbatim>\<open>Wrong move notation\<close>: that is the case exactly when the returned cursor is not
  \<^verbatim>\<open>end\<close>.
\<close>

lemma length_next_move: "cur \<noteq> [] \<Longrightarrow> length (next_move cur) < length cur"
  using length_dropWhile_le [of "\<lambda>c. c \<noteq> NUL" cur]
  by (cases cur) (auto simp: next_move_def)

function parse_game_loop ::
  "'pos engine \<Rightarrow> bool \<Rightarrow> 32 word \<Rightarrow> 'pos \<Rightarrow> nat \<Rightarrow> string \<Rightarrow> Keys \<Rightarrow> nat
     \<Rightarrow> fault + (string \<times> Keys \<times> nat)" where
  "parse_game_loop eng DryRun lrn pos st cur kTable fixed =
     (if cur = [] then Inr ([], kTable, fixed)
      else
        (case san_to_move eng pos cur fixed of (m, fixed') \<Rightarrow>
           if m = MOVE_NONE eng then Inr (cur, kTable, fixed')
           else if states_size \<le> st then Inl OutOfBounds
           else if m = MOVE_NULL eng then
             parse_game_loop eng DryRun lrn (do_null_move eng pos) (Suc st)
               (next_move cur) kTable fixed'
           else
             parse_game_loop eng DryRun lrn
               (do_move eng pos m (gives_check eng pos m)) (Suc st) (next_move cur)
               (if \<not> DryRun
                then kTable @ [\<lparr>key = pos_key eng pos, move = to_polyglot eng m,
                                weight = 1, learn = lrn\<rparr>]
                else kTable)
               fixed'))"
  by pat_completeness auto
termination
  by (relation "measure (\<lambda>(eng, DryRun, lrn, pos, st, cur, kTable, fixed). length cur)")
     (auto simp: length_next_move)

declare parse_game_loop.simps [simp del]


text \<open>
  \<^verbatim>\<open>parse_game\<close>: the position starts from \<^verbatim>\<open>RootPos\<close>, or from the FEN when the
  buffer between \<^verbatim>\<open>fen\<close> and \<^verbatim>\<open>fenEnd\<close> is not empty (which takes the first slot
  of \<^verbatim>\<open>states\<close>).
\<close>

definition start_pos :: "'pos engine \<Rightarrow> string \<Rightarrow> 'pos" where
  "start_pos eng fen = (if fen \<noteq> [] then set_fen eng (c_str fen) else RootPos eng)"

definition parse_game ::
  "'pos engine \<Rightarrow> bool \<Rightarrow> string \<Rightarrow> Keys \<Rightarrow> string \<Rightarrow> nat \<Rightarrow> 64 word \<Rightarrow> int
     \<Rightarrow> fault + (string \<times> Keys \<times> nat)" where
  "parse_game eng DryRun moves kTable fen fixed gameOfs result =
     parse_game_loop eng DryRun (make_learn gameOfs result) (start_pos eng fen)
       (if fen \<noteq> [] then 1 else 0) moves kTable fixed"

text \<open>
  The game as replayed: the positions in which a move other than the null move is
  played, each with that move, in order. The position after a move is the engine's
  \<^verbatim>\<open>do_move\<close> of it; replay ends at the first rejected token.
\<close>

function played :: "'pos engine \<Rightarrow> 'pos \<Rightarrow> string \<Rightarrow> nat \<Rightarrow> ('pos \<times> Move) list" where
  "played eng pos cur fixed =
     (if cur = [] then []
      else
        (case san_to_move eng pos cur fixed of (m, fixed') \<Rightarrow>
           if m = MOVE_NONE eng then []
           else if m = MOVE_NULL eng then
             played eng (do_null_move eng pos) (next_move cur) fixed'
           else
             (pos, m) #
             played eng (do_move eng pos m (gives_check eng pos m)) (next_move cur) fixed'))"
  by pat_completeness auto
termination
  by (relation "measure (\<lambda>(eng, pos, cur, fixed). length cur)")
     (auto simp: length_next_move)

declare played.simps [simp del]

text \<open>The record \<^verbatim>\<open>parse_game\<close> pushes for a move played in a position.\<close>

definition emit :: "'pos engine \<Rightarrow> 32 word \<Rightarrow> 'pos \<times> Move \<Rightarrow> PolyEntry" where
  "emit eng lrn pm =
     \<lparr>key = pos_key eng (fst pm), move = to_polyglot eng (snd pm), weight = 1, learn = lrn\<rparr>"

text \<open>
  The state of the loop of \<^verbatim>\<open>parse_game\<close> after \<open>n\<close> iterations that each accepted
  a token: position, slot index, cursor, table and \<^verbatim>\<open>fixed\<close>; \<open>None\<close> when the loop
  ends before.
\<close>

fun accepted ::
  "'pos engine \<Rightarrow> bool \<Rightarrow> 32 word \<Rightarrow> nat \<Rightarrow> 'pos \<Rightarrow> nat \<Rightarrow> string \<Rightarrow> Keys \<Rightarrow> nat
     \<Rightarrow> ('pos \<times> nat \<times> string \<times> Keys \<times> nat) option" where
  "accepted eng DryRun lrn 0 pos st cur kTable fixed = Some (pos, st, cur, kTable, fixed)"
| "accepted eng DryRun lrn (Suc n) pos st cur kTable fixed =
     (if cur = [] then None
      else
        (case san_to_move eng pos cur fixed of (m, fixed') \<Rightarrow>
           if m = MOVE_NONE eng then None
           else if states_size \<le> st then None
           else if m = MOVE_NULL eng then
             accepted eng DryRun lrn n (do_null_move eng pos) (Suc st)
               (next_move cur) kTable fixed'
           else
             accepted eng DryRun lrn n
               (do_move eng pos m (gives_check eng pos m)) (Suc st) (next_move cur)
               (if \<not> DryRun
                then kTable @ [\<lparr>key = pos_key eng pos, move = to_polyglot eng m,
                                weight = 1, learn = lrn\<rparr>]
                else kTable)
               fixed'))"

text \<open>
  A scripted engine for concrete runs: a position is a number, a token starting with
  \<open>x\<close> is rejected, \<open>-\<close> starts the null move, and any other token is a move numbered
  by its length.
\<close>

definition toy_engine :: "nat engine" where
  "toy_engine =
     \<lparr>RootPos = 0,
      set_fen = (\<lambda>fen. length fen),
      san_to_move = (\<lambda>pos cur fixed.
         if take 1 cur = ''x'' then (0, fixed)
         else if take 1 cur = ''-'' then (65, fixed)
         else (100 + int (length (c_str cur)), fixed)),
      do_move = (\<lambda>pos m chk. 2 * pos + nat m),
      do_null_move = (\<lambda>pos. 2 * pos),
      gives_check = (\<lambda>pos m. False),
      pos_key = (\<lambda>pos. of_nat pos),
      MOVE_NONE = 0,
      MOVE_NULL = 65,
      is_promotion = (\<lambda>m. False),
      promotion_type = (\<lambda>m. 2)\<rparr>"

section \<open>Sorting and weighting the table\<close>

text \<open>
  Modelled from the spec: \<^verbatim>\<open>operator<\<close> on \<^verbatim>\<open>PolyEntry\<close> is declared in \<^verbatim>\<open>book.h\<close>,
  which is not among the sources; the spec has it compare lexicographically by
  (key, move, weight, learn).
\<close>

definition PolyEntry_less :: "PolyEntry \<Rightarrow> PolyEntry \<Rightarrow> bool" where
  "PolyEntry_less a b \<longleftrightarrow>
     key a < key b \<or> (key a = key b \<and>
       (move a < move b \<or> (move a = move b \<and>
         (weight a < weight b \<or> (weight a = weight b \<and> learn a < learn b)))))"

text \<open>The comparison \<^verbatim>\<open>sort_by_frequency\<close> passes to \<^verbatim>\<open>std::sort\<close>.\<close>

definition freq_less :: "PolyEntry \<Rightarrow> PolyEntry \<Rightarrow> bool" where
  "freq_less a b \<longleftrightarrow> weight a > weight b \<or> (weight a = weight b \<and> move a > move b)"

text \<open>
  \<^verbatim>\<open>std::sort\<close> with a comparison \<open>lt\<close>, as insertion sort. The standard leaves the
  order of equivalent elements open; this one keeps it. Under \<^verbatim>\<open>operator<\<close>, which
  compares all four fields, equivalent records are equal.
\<close>

fun insert_by :: "('a \<Rightarrow> 'a \<Rightarrow> bool) \<Rightarrow> 'a \<Rightarrow> 'a list \<Rightarrow> 'a list" where
  "insert_by lt x [] = [x]"
| "insert_by lt x (y # ys) = (if lt y x then y # insert_by lt x ys else x # y # ys)"

definition std_sort :: "('a \<Rightarrow> 'a \<Rightarrow> bool) \<Rightarrow> 'a list \<Rightarrow> 'a list" where
  "std_sort lt xs = foldr (insert_by lt) xs []"

text \<open>
  The new weight, \<^verbatim>\<open>moves[m] * 0xFFFF / (end - start)\<close> stored in a \<^verbatim>\<open>uint16_t\<close>:
  the product is an \<^verbatim>\<open>int\<close> (32 bits; past 32768 occurrences of a move it overflows,
  which the model wraps around), the division is done in \<^verbatim>\<open>size_t\<close> (64 bits, the
  product sign-extended), and the quotient is cut to 16 bits.
\<close>

definition freq_weight :: "int \<Rightarrow> nat \<Rightarrow> 16 word" where
  "freq_weight c n =
     ucast ((scast ((word_of_int c :: 32 word) * 0xFFFF) :: 64 word) div of_nat n)"

text \<open>
  The counting loop over the run: \<^verbatim>\<open>std::map<PMove, int> moves\<close>, where a move not
  yet present counts 0.
\<close>

definition count_moves :: "Keys \<Rightarrow> 16 word \<Rightarrow> int" where
  "count_moves run = fold (\<lambda>e moves. moves(move e := moves (move e) + 1)) run (\<lambda>m. 0)"

text \<open>The second loop: every entry of the run gets its new weight.\<close>

definition reweight_run :: "Keys \<Rightarrow> Keys" where
  "reweight_run run =
     map (\<lambda>e. e\<lparr>weight := freq_weight (count_moves run (move e)) (length run)\<rparr>) run"

text \<open>
  \<^verbatim>\<open>sort_by_frequency(kTable, start, end)\<close> rewrites the entries from \<^verbatim>\<open>start\<close> up to
  \<^verbatim>\<open>end\<close> and returns \<^verbatim>\<open>end\<close>.
\<close>

definition sort_by_frequency :: "Keys \<Rightarrow> nat \<Rightarrow> nat \<Rightarrow> Keys \<times> nat" where
  "sort_by_frequency kTable start end' =
     (let run = take (end' - start) (drop start kTable)
      in (take start kTable @ std_sort freq_less (reweight_run run) @ drop end' kTable, end'))"

lemma length_insert_by: "length (insert_by lt x ys) = Suc (length ys)"
  by (induction ys) simp_all

lemma length_std_sort: "length (std_sort lt xs) = length xs"
  by (induction xs) (simp_all add: std_sort_def length_insert_by)

lemma length_sort_by_frequency:
  "start \<le> end' \<Longrightarrow> end' \<le> length kTable \<Longrightarrow> length (fst (sort_by_frequency kTable start end')) = length kTable"
  by (auto simp: sort_by_frequency_def Let_def length_std_sort reweight_run_def)

lemma snd_sort_by_frequency: "snd (sort_by_frequency kTable start end') = end'"
  by (simp add: sort_by_frequency_def Let_def)

text \<open>
  The loop of \<^verbatim>\<open>make_book\<close> after the global sort. It runs \<^verbatim>\<open>idx\<close> over the table
  from 1; \<^verbatim>\<open>last\<close> is the index where the current run of equal keys began. The
  model returns the table and \<^verbatim>\<open>uniqueKeys\<close>.
\<close>

function weight_loop :: "Keys \<Rightarrow> nat \<Rightarrow> nat \<Rightarrow> nat \<Rightarrow> Keys \<times> nat" where
  "weight_loop kTable uniqueKeys last' idx =
     (if idx < length kTable then
        (if key (kTable ! idx) \<noteq> key (kTable ! (idx - 1)) then
           (case (if idx - last' > 2 then sort_by_frequency kTable last' idx else (kTable, idx)) of
              (kTable', idx') \<Rightarrow> weight_loop kTable' (uniqueKeys + 1) idx' (idx' + 1))
         else weight_loop kTable uniqueKeys last' (idx + 1))
      else (kTable, uniqueKeys))"
  by pat_completeness auto
termination
  apply (relation "measure (\<lambda>(kTable, uniqueKeys, last', idx). length kTable - idx)")
    apply simp
   apply (auto split: if_splits)
  subgoal for kTable last' idx x y
    using length_sort_by_frequency [of last' idx kTable] snd_sort_by_frequency [of kTable last' idx]
    by (cases "sort_by_frequency kTable last' idx") auto
  done

declare weight_loop.simps [simp del]

text \<open>
  The post-processing of \<^verbatim>\<open>make_book\<close>: \<^verbatim>\<open>std::sort(kTable.begin(), kTable.end())\<close>
  followed by the loop, which starts with \<^verbatim>\<open>uniqueKeys = 1, last = 0, idx = 1\<close>.
\<close>

definition make_book_post :: "Keys \<Rightarrow> Keys \<times> nat" where
  "make_book_post kTable = weight_loop (std_sort PolyEntry_less kTable) 1 0 1"



text \<open>
  The order the spec asks for inside a key: non-increasing weight, ties broken by
  non-increasing move.
\<close>

definition freq_ordered :: "PolyEntry \<Rightarrow> PolyEntry \<Rightarrow> bool" where
  "freq_ordered a b \<longleftrightarrow> weight a > weight b \<or> (weight a = weight b \<and> move a \<ge> move b)"

text \<open>
  The records of a table with key \<open>k\<close>. In a table in key order that is the maximal
  run of the key.
\<close>

definition run_of :: "64 word \<Rightarrow> Keys \<Rightarrow> Keys" where
  "run_of k kTable = filter (\<lambda>e. key e = k) kTable"

text \<open>
  The loop seen on lists: \<open>pre\<close> are the entries before the current run, \<open>run\<close> is
  the current run and the third argument the entries not yet visited. It is proved
  below to compute what the loop computes.
\<close>

definition resort_run :: "Keys \<Rightarrow> Keys" where
  "resort_run run = std_sort freq_less (reweight_run run)"

fun scan :: "Keys \<Rightarrow> Keys \<Rightarrow> Keys \<Rightarrow> Keys" where
  "scan pre run [] = pre @ run"
| "scan pre run (x # xs) =
     (if key x \<noteq> key (last run)
      then scan (pre @ (if 2 < length run then resort_run run else run)) [x] xs
      else scan pre (run @ [x]) xs)"

section \<open>Probing a book\<close>

text \<open>
  The input stream \<^verbatim>\<open>std::ifstream ifs\<close> is the list of the bytes not yet read.
  \<^verbatim>\<open>ifs.get()\<close> returns the next byte, or \<^verbatim>\<open>EOF\<close>, which is \<open>-1\<close>, at the end of
  the file and ever after.
\<close>

definition get_byte :: "8 word list \<Rightarrow> int \<times> 8 word list" where
  "get_byte ifs = (case ifs of [] \<Rightarrow> (- 1, []) | b # bs \<Rightarrow> (uint b, bs))"

text \<open>
  \<^verbatim>\<open>template<typename T> void read_entry(T& n, std::ifstream& ifs)\<close>: \<^verbatim>\<open>sizeof(T)\<close>
  times \<^verbatim>\<open>n = T((n << 8) + ifs.get())\<close>, in the arithmetic of \<^verbatim>\<open>T\<close>. The end of
  the file is not checked: \<^verbatim>\<open>EOF\<close> is added like a byte.
\<close>

fun read_loop :: "nat \<Rightarrow> 'a::len word \<Rightarrow> 8 word list \<Rightarrow> 'a word \<times> 8 word list" where
  "read_loop 0 n ifs = (n, ifs)"
| "read_loop (Suc k) n ifs =
     (case get_byte ifs of (c, ifs') \<Rightarrow> read_loop k (push_bit 8 n + word_of_int c) ifs')"

definition read_num :: "8 word list \<Rightarrow> 'a::len word \<times> 8 word list" where
  "read_num ifs = read_loop (LENGTH('a) div 8) 0 ifs"

text \<open>The specialisation for \<^verbatim>\<open>PolyEntry\<close>: key, move, weight, learn.\<close>

definition read_entry :: "8 word list \<Rightarrow> PolyEntry \<times> 8 word list" where
  "read_entry ifs =
     (case read_num ifs of (k, ifs1) \<Rightarrow>
      case read_num ifs1 of (m, ifs2) \<Rightarrow>
      case read_num ifs2 of (w, ifs3) \<Rightarrow>
      case read_num ifs3 of (l, ifs4) \<Rightarrow>
        (\<lparr>key = k, move = m, weight = w, learn = l\<rparr>, ifs4))"

text \<open>
  What \<^verbatim>\<open>probe_key\<close> reports of a group of records, in place of the JSON text it
  builds: the move and weight of the first record of the group, the four counters
  \<^verbatim>\<open>results\<close> (wins, losses, draws, unknown) and the sampled offsets \<^verbatim>\<open>pgn_ofs\<close>.
\<close>

record move_stats =
  ms_move :: "16 word"
  ms_weight :: "16 word"
  ms_results :: "nat list"
  ms_pgn_ofs :: "64 word list"

text \<open>
  \<^verbatim>\<open>(e.learn & 0x3FFFFFFF) << 3\<close>, computed in 32 bits and stored as
  \<^verbatim>\<open>uint64_t\<close>; \<^verbatim>\<open>(e.learn >> 30) & 3\<close>, the index into \<^verbatim>\<open>results\<close>.
\<close>

definition pgn_offset :: "PolyEntry \<Rightarrow> 64 word" where
  "pgn_offset e = ucast (push_bit 3 (learn e AND 0x3FFFFFFF))"

definition result_bucket :: "PolyEntry \<Rightarrow> nat" where
  "result_bucket e = unat (drop_bit 30 (learn e) AND 3)"

text \<open>
  The inner \<^verbatim>\<open>do ... while (e.move == move)\<close> of \<^verbatim>\<open>probe_key\<close>: it handles the
  record \<open>e\<close>, reads the next one, and goes on while that has the move \<open>mv\<close> of the
  group. It returns the record that ended the group, the stream, \<^verbatim>\<open>pgn_ofs\<close> and
  \<^verbatim>\<open>results\<close>. Past the end of the file the records read are all alike, so the
  loop need not end: not returning is \<open>None\<close>.
\<close>

partial_function (option) probe_group ::
  "16 word \<Rightarrow> nat \<Rightarrow> PolyEntry \<Rightarrow> 8 word list \<Rightarrow> nat \<Rightarrow> 64 word list \<Rightarrow> nat list
     \<Rightarrow> (PolyEntry \<times> 8 word list \<times> 64 word list \<times> nat list) option" where
  "probe_group mv limit e ifs skip_counter pgn_ofs results =
     (case read_entry ifs of (e', ifs') \<Rightarrow>
        if move e' = mv
        then probe_group mv limit e' ifs'
               (if skip_counter \<noteq> 0 then skip_counter - 1 else skip_counter)
               (if skip_counter = 0 \<and> length pgn_ofs < limit
                then pgn_ofs @ [pgn_offset e] else pgn_ofs)
               (results[result_bucket e := results ! result_bucket e + 1])
        else Some (e', ifs',
               (if skip_counter = 0 \<and> length pgn_ofs < limit
                then pgn_ofs @ [pgn_offset e] else pgn_ofs),
               results[result_bucket e := results ! result_bucket e + 1]))"

text \<open>
  The outer \<^verbatim>\<open>do ... while (key == e.key)\<close>: one group per round, each starting with
  \<^verbatim>\<open>skip_counter = skip\<close>, zeroed \<^verbatim>\<open>results\<close> and an empty \<^verbatim>\<open>pgn_ofs\<close>.
\<close>

partial_function (option) probe_moves ::
  "64 word \<Rightarrow> nat \<Rightarrow> nat \<Rightarrow> PolyEntry \<Rightarrow> 8 word list \<Rightarrow> move_stats list
     \<Rightarrow> move_stats list option" where
  "probe_moves k limit skip e ifs json_moves =
     (case probe_group (move e) limit e ifs skip [] [0, 0, 0, 0] of
        None \<Rightarrow> None
      | Some (e', ifs', pgn_ofs, results) \<Rightarrow>
          if k = key e'
          then probe_moves k limit skip e' ifs'
                 (json_moves @ [\<lparr>ms_move = move e, ms_weight = weight e,
                                  ms_results = results, ms_pgn_ofs = pgn_ofs\<rparr>])
          else Some (json_moves @ [\<lparr>ms_move = move e, ms_weight = weight e,
                                     ms_results = results, ms_pgn_ofs = pgn_ofs\<rparr>]))"

text \<open>
  \<^verbatim>\<open>probe_key(json_moves, fName, ofs, limit, skip)\<close>. The file is \<open>None\<close> when it
  cannot be opened, and then nothing is reported. Otherwise the stream is positioned
  at \<^verbatim>\<open>ofs\<close> and the key probed is that of the first record read.
\<close>

definition probe_key :: "8 word list option \<Rightarrow> nat \<Rightarrow> nat \<Rightarrow> nat \<Rightarrow> move_stats list option" where
  "probe_key file ofs limit skip =
     (case file of
        None \<Rightarrow> Some []
      | Some bytes \<Rightarrow>
          (case read_entry (drop ofs bytes) of (e, ifs) \<Rightarrow>
             probe_moves (key e) limit skip e ifs []))"

text \<open>
  Two books of two records each, for concrete runs: the keys differ, and the second
  record has the move of the first in \<open>book_same_move\<close> and another move in
  \<open>book_other_move\<close>. \<open>eof_entry\<close> is what \<^verbatim>\<open>read_entry\<close> yields at the end of a
  file.
\<close>

definition rec1 :: PolyEntry where
  "rec1 = \<lparr>key = 1, move = 5, weight = 1, learn = 0\<rparr>"

definition rec2 :: PolyEntry where
  "rec2 = \<lparr>key = 2, move = 5, weight = 1, learn = 0x40000001\<rparr>"

definition rec3 :: PolyEntry where
  "rec3 = \<lparr>key = 2, move = 6, weight = 1, learn = 0x40000001\<rparr>"

definition eof_entry :: PolyEntry where
  "eof_entry =
     \<lparr>key = 0xFEFEFEFEFEFEFEFF, move = 0xFEFF, weight = 0xFEFF, learn = 0xFEFEFEFF\<rparr>"

definition book_same_move :: "8 word list" where
  "book_same_move = write_PolyEntry rec1 @ write_PolyEntry rec2"

definition book_other_move :: "8 word list" where
  "book_other_move = write_PolyEntry rec1 @ write_PolyEntry rec3"

section \<open>The PGN parser\<close>

datatype Token =
  T_NONE | T_SPACES | T_RESULT | T_MINUS | T_DOT | T_QUOTES | T_DOLLAR
| T_LEFT_BRACKET | T_RIGHT_BRACKET | T_LEFT_BRACE | T_RIGHT_BRACE
| T_LEFT_PARENTHESIS | T_RIGHT_PARENTHESIS | T_EVENT | T_ZERO | T_DIGIT
| T_MOVE_HEAD

datatype State =
  HEADER | TAG | FEN_TAG | BRACE_COMMENT | VARIATION | NUMERIC_ANNOTATION_GLYPH
| NEXT_MOVE | MOVE_NUMBER | NEXT_SAN | READ_SAN | RESULT | SKIP_GAME

datatype Step =
  FAIL | CONTINUE | GAME_START | OPEN_TAG | OPEN_BRACE_COMMENT | READ_FEN | CLOSE_FEN_TAG
| OPEN_VARIATION | START_NAG | POP_STATE | START_MOVE_NUMBER | START_NEXT_SAN
| CASTLE_OR_RESULT | START_READ_SAN | READ_MOVE_CHAR | END_MOVE | START_RESULT
| END_GAME | TAG_IN_BRACE | MISSING_RESULT

text \<open>
  Modelled from the spec: \<^verbatim>\<open>WHITE\<close> and \<^verbatim>\<open>BLACK\<close> are declared in \<^verbatim>\<open>types.h\<close>, which
  is not among the sources. The parser keeps the side to move in an \<^verbatim>\<open>int\<close> and
  toggles it with \<^verbatim>\<open>stm ^= 1\<close>.
\<close>

datatype Color = WHITE | BLACK

fun toggle :: "Color \<Rightarrow> Color" where
  "toggle WHITE = BLACK"
| "toggle BLACK = WHITE"

text \<open>
  The table \<^verbatim>\<open>ToToken\<close> as \<^verbatim>\<open>Parser::init\<close> fills it; a byte it does not set stays
  \<^verbatim>\<open>T_NONE\<close>, the zero of the enumeration.
\<close>

definition ToToken :: "char \<Rightarrow> Token" where
  "ToToken c =
     (if c = CHR 0x0A \<or> c = CHR 0x0D \<or> c = CHR '' '' \<or> c = CHR 0x09 then T_SPACES
      else if c = CHR ''/'' \<or> c = CHR ''*'' then T_RESULT
      else if c = CHR ''-'' then T_MINUS
      else if c = CHR ''.'' then T_DOT
      else if c = CHR 0x22 then T_QUOTES
      else if c = CHR ''$'' then T_DOLLAR
      else if c = CHR ''['' then T_LEFT_BRACKET
      else if c = CHR '']'' then T_RIGHT_BRACKET
      else if c = CHR ''{'' then T_LEFT_BRACE
      else if c = CHR ''}'' then T_RIGHT_BRACE
      else if c = CHR ''('' then T_LEFT_PARENTHESIS
      else if c = CHR '')'' then T_RIGHT_PARENTHESIS
      else if c = CHR ''E'' then T_EVENT
      else if c = CHR ''0'' then T_ZERO
      else if c \<in> set ''123456789'' then T_DIGIT
      else if c \<in> set ''abcdefghNBRQKOo'' then T_MOVE_HEAD
      else if c \<in> set ''!?+#'' then T_SPACES
      else T_NONE)"

text \<open>
  The table \<^verbatim>\<open>ToStep\<close>, row by row. Every row but \<^verbatim>\<open>MOVE_NUMBER\<close> is first filled
  with a default; the cells of \<^verbatim>\<open>MOVE_NUMBER\<close> that are not set stay \<^verbatim>\<open>FAIL\<close>, the
  zero of the enumeration.
\<close>

fun ToStep :: "State \<Rightarrow> Token \<Rightarrow> Step" where
  "ToStep HEADER tk =
     (if tk = T_LEFT_BRACKET then OPEN_TAG
      else if tk = T_LEFT_BRACE then OPEN_BRACE_COMMENT
      else if tk = T_DIGIT then START_MOVE_NUMBER
      else if tk = T_ZERO then START_RESULT
      else if tk = T_RESULT then START_RESULT
      else CONTINUE)"
| "ToStep TAG tk = (if tk = T_RIGHT_BRACKET then POP_STATE else CONTINUE)"
| "ToStep FEN_TAG tk = (if tk = T_QUOTES then CLOSE_FEN_TAG else READ_FEN)"
| "ToStep BRACE_COMMENT tk =
     (if tk = T_RIGHT_BRACE then POP_STATE
      else if tk = T_LEFT_BRACKET then TAG_IN_BRACE
      else CONTINUE)"
| "ToStep VARIATION tk =
     (if tk = T_RIGHT_PARENTHESIS then POP_STATE
      else if tk = T_LEFT_PARENTHESIS then OPEN_VARIATION
      else if tk = T_LEFT_BRACE then OPEN_BRACE_COMMENT
      else CONTINUE)"
| "ToStep NUMERIC_ANNOTATION_GLYPH tk =
     (if tk = T_ZERO then CONTINUE
      else if tk = T_DIGIT then CONTINUE
      else POP_STATE)"
| "ToStep NEXT_MOVE tk =
     (if tk = T_LEFT_PARENTHESIS then OPEN_VARIATION
      else if tk = T_LEFT_BRACE then OPEN_BRACE_COMMENT
      else if tk = T_LEFT_BRACKET then MISSING_RESULT
      else if tk = T_DOLLAR then START_NAG
      else if tk = T_RESULT then START_RESULT
      else if tk = T_ZERO then START_RESULT
      else if tk = T_DOT then FAIL
      else if tk = T_MOVE_HEAD then FAIL
      else if tk = T_MINUS then FAIL
      else if tk = T_DIGIT then START_MOVE_NUMBER
      else CONTINUE)"
| "ToStep MOVE_NUMBER tk =
     (if tk = T_ZERO then CONTINUE
      else if tk = T_DIGIT then CONTINUE
      else if tk = T_RESULT then START_RESULT
      else if tk = T_MINUS then START_RESULT
      else if tk = T_SPACES then START_NEXT_SAN
      else if tk = T_DOT then START_NEXT_SAN
      else FAIL)"
| "ToStep NEXT_SAN tk =
     (if tk = T_LEFT_PARENTHESIS then OPEN_VARIATION
      else if tk = T_LEFT_BRACE then OPEN_BRACE_COMMENT
      else if tk = T_LEFT_BRACKET then MISSING_RESULT
      else if tk = T_DOLLAR then START_NAG
      else if tk = T_RESULT then START_RESULT
      else if tk = T_ZERO then CASTLE_OR_RESULT
      else if tk = T_DOT then CONTINUE
      else if tk = T_DIGIT then START_MOVE_NUMBER
      else if tk = T_MOVE_HEAD then START_READ_SAN
      else if tk = T_MINUS then START_READ_SAN
      else CONTINUE)"
| "ToStep READ_SAN tk =
     (if tk = T_SPACES then END_MOVE
      else if tk = T_LEFT_BRACE then OPEN_BRACE_COMMENT
      else READ_MOVE_CHAR)"
| "ToStep RESULT tk = (if tk = T_SPACES then END_GAME else CONTINUE)"
| "ToStep SKIP_GAME tk = (if tk = T_EVENT then GAME_START else CONTINUE)"

text \<open>
  What the parser prints to \<^verbatim>\<open>std::cerr\<close>: \<^verbatim>\<open>error(state, data)\<close> on a \<^verbatim>\<open>FAIL\<close> cell,
  with the state and the position, and \<^verbatim>\<open>Wrong move notation\<close> from \<^verbatim>\<open>parse_game\<close>,
  with the rejected text.
\<close>

datatype diagnostic = Wrong_state State int | Wrong_move_notation string

text \<open>
  The local variables of \<^verbatim>\<open>parse_pgn\<close> and the table it fills. \<open>ps_stateStack\<close> is
  the used part of \<^verbatim>\<open>stateStack\<close>, top first; \<open>ps_fen\<close> holds the bytes from
  \<^verbatim>\<open>fen\<close> to \<^verbatim>\<open>fenEnd\<close> and \<open>ps_moves\<close> those from \<^verbatim>\<open>moves\<close> to \<^verbatim>\<open>end\<close>;
  \<open>ps_data\<close> is the offset of \<^verbatim>\<open>data\<close> in the mapped file and \<open>ps_diag\<close> what has
  been printed. \<^verbatim>\<open>curMove\<close> is only ever written and is left out. (The fields
  carry a prefix so that they do not take the names of the parameters of
  \<^verbatim>\<open>parse_game\<close>.)
\<close>

record parser =
  ps_stateStack :: "State list"
  ps_fen :: string
  ps_moves :: string
  ps_moveCnt :: nat
  ps_gameCnt :: nat
  ps_fixed :: nat
  ps_gameOfs :: "64 word"
  ps_result :: int
  ps_data :: int
  ps_stm :: Color
  ps_state :: State
  ps_kTable :: Keys
  ps_diag :: "diagnostic list"

text \<open>\<^verbatim>\<open>struct Stats\<close>.\<close>

record Stats =
  st_games :: nat
  st_moves :: nat
  st_fixed :: nat

text \<open>
  The sizes of \<^verbatim>\<open>stateStack[16]\<close>, \<^verbatim>\<open>fen[256]\<close> and \<^verbatim>\<open>moves[1024 * 8]\<close>. A write
  past one of them is a fault of the model.
\<close>

definition push_state :: "parser \<Rightarrow> fault + parser" where
  "push_state p =
     (if 16 \<le> length (ps_stateStack p) then Inl StackOverflow
      else Inr (p\<lparr>ps_stateStack := ps_state p # ps_stateStack p\<rparr>))"

definition pop_state :: "parser \<Rightarrow> fault + parser" where
  "pop_state p =
     (case ps_stateStack p of
        [] \<Rightarrow> Inl StackUnderflow
      | s # ss \<Rightarrow> Inr (p\<lparr>ps_stateStack := ss, ps_state := s\<rparr>))"

definition put_fen :: "char \<Rightarrow> parser \<Rightarrow> fault + parser" where
  "put_fen c p =
     (if 256 \<le> length (ps_fen p) then Inl FenOverflow
      else Inr (p\<lparr>ps_fen := ps_fen p @ [c]\<rparr>))"

definition put_move :: "char \<Rightarrow> parser \<Rightarrow> fault + parser" where
  "put_move c p =
     (if 8192 \<le> length (ps_moves p) then Inl MovesOverflow
      else Inr (p\<lparr>ps_moves := ps_moves p @ [c]\<rparr>))"

text \<open>
  \<^verbatim>\<open>!strncmp(mem + i, lit, n)\<close> for a literal \<open>lit\<close> of \<open>n\<close> bytes, none of them NUL:
  the bytes are compared in turn up to the first that differs, and a byte outside the
  mapping is a fault.
\<close>

fun strncmp_eq :: "string \<Rightarrow> int \<Rightarrow> string \<Rightarrow> fault + bool" where
  "strncmp_eq mem i [] = Inr True"
| "strncmp_eq mem i (c # cs) =
     (case peek mem i of
        Inl f \<Rightarrow> Inl f
      | Inr b \<Rightarrow> if b = c then strncmp_eq mem (i + 1) cs else Inr False)"

text \<open>\<^verbatim>\<open>strstr(s, lit) != nullptr\<close> on a C string \<open>s\<close>.\<close>

fun strstr :: "string \<Rightarrow> string \<Rightarrow> bool" where
  "strstr [] lit = (lit = [])"
| "strstr (c # cs) lit = (take (length lit) (c # cs) = lit \<or> strstr cs lit)"

text \<open>
  The call \<^verbatim>\<open>parse_game(moves, end, kTable, fen, fenEnd, fixed, gameOfs, result)\<close>
  followed by \<^verbatim>\<open>gameCnt++\<close>, as it stands in three places of \<^verbatim>\<open>parse_pgn\<close>.
\<close>

definition finalize_game :: "'pos engine \<Rightarrow> parser \<Rightarrow> fault + parser" where
  "finalize_game eng p =
     (case parse_game eng False (ps_moves p) (ps_kTable p) (ps_fen p) (ps_fixed p)
             (ps_gameOfs p) (ps_result p) of
        Inl f \<Rightarrow> Inl f
      | Inr (cur, kTable', fixed') \<Rightarrow>
          Inr (p\<lparr>ps_kTable := kTable', ps_fixed := fixed',
                 ps_diag := (if cur \<noteq> [] then ps_diag p @ [Wrong_move_notation cur]
                             else ps_diag p),
                 ps_gameCnt := ps_gameCnt p + 1\<rparr>))"

text \<open>
  The reset of the variables of a game, with the offset of the next game:
  \<^verbatim>\<open>result = 3; gameOfs = ...; end = curMove = moves; fenEnd = fen;
  state = ToStep[HEADER]; stm = WHITE\<close>.
\<close>

definition reset_game :: "64 word \<Rightarrow> parser \<Rightarrow> parser" where
  "reset_game ofs p =
     p\<lparr>ps_result := 3, ps_gameOfs := ofs, ps_moves := [], ps_fen := [],
       ps_state := HEADER, ps_stm := WHITE\<rparr>"

text \<open>
  \<^verbatim>\<open>error(state, data)\<close> prints the state and the 50 bytes from \<^verbatim>\<open>data\<close> on, which
  it reads whether or not the file has them.
\<close>

definition error :: "string \<Rightarrow> parser \<Rightarrow> fault + parser" where
  "error file p =
     (if int (length file) < ps_data p + 50 then Inl OutOfBounds
      else Inr (p\<lparr>ps_diag := ps_diag p @ [Wrong_state (ps_state p) (ps_data p)]\<rparr>))"

text \<open>
  \<^verbatim>\<open>assert (result == 3); result = get_result(data); state = ToStep[RESULT]\<close>, of
  \<^verbatim>\<open>START_RESULT\<close> and \<^verbatim>\<open>CASTLE_OR_RESULT\<close>.
\<close>

definition start_result :: "string \<Rightarrow> parser \<Rightarrow> fault + parser" where
  "start_result file p =
     (if ps_result p \<noteq> 3 then Inl AssertFailed
      else
        (case get_result file (ps_data p) of
           Inl f \<Rightarrow> Inl f
         | Inr r \<Rightarrow> Inr (p\<lparr>ps_result := r, ps_state := RESULT\<rparr>)))"

text \<open>\<^verbatim>\<open>case START_READ_SAN\<close>, which \<^verbatim>\<open>CASTLE_OR_RESULT\<close> falls through to.\<close>

definition start_read_san :: "char \<Rightarrow> parser \<Rightarrow> fault + parser" where
  "start_read_san c p =
     (case put_move c p of
        Inl f \<Rightarrow> Inl f
      | Inr p' \<Rightarrow> Inr (p'\<lparr>ps_state := READ_SAN\<rparr>))"

text \<open>\<^verbatim>\<open>case MISSING_RESULT\<close>, which \<^verbatim>\<open>TAG_IN_BRACE\<close> falls through to.\<close>

definition missing_result :: "'pos engine \<Rightarrow> parser \<Rightarrow> fault + parser" where
  "missing_result eng p =
     (case finalize_game eng p of
        Inl f \<Rightarrow> Inl f
      | Inr p' \<Rightarrow>
          (case push_state (reset_game (word_of_int (ps_data p)) p') of
             Inl f \<Rightarrow> Inl f
           | Inr p'' \<Rightarrow> Inr (p''\<lparr>ps_state := TAG\<rparr>)))"

text \<open>
  The three tests of \<^verbatim>\<open>case OPEN_TAG\<close> on the bytes after the bracket at \<open>d\<close>:
  \<^verbatim>\<open>*(data + 1) == 'F' && !strncmp(data+1, "FEN \"", 5)\<close>, then
  \<^verbatim>\<open>*(data + 1) == 'V' && !strncmp(data+1, "Variant ", 8)\<close>, then
  \<^verbatim>\<open>!strncmp(data+9, "\"Standard\"", 10)\<close>.
\<close>

definition fen_tag_at :: "string \<Rightarrow> int \<Rightarrow> fault + bool" where
  "fen_tag_at file d =
     (case peek file (d + 1) of
        Inl f \<Rightarrow> Inl f
      | Inr c \<Rightarrow>
          if c = CHR ''F'' then strncmp_eq file (d + 1) (''FEN '' @ [CHR 0x22]) else Inr False)"

definition variant_tag_at :: "string \<Rightarrow> int \<Rightarrow> fault + bool" where
  "variant_tag_at file d =
     (case peek file (d + 1) of
        Inl f \<Rightarrow> Inl f
      | Inr c \<Rightarrow> if c = CHR ''V'' then strncmp_eq file (d + 1) ''Variant '' else Inr False)"

definition standard_at :: "string \<Rightarrow> int \<Rightarrow> fault + bool" where
  "standard_at file d = strncmp_eq file (d + 9) ([CHR 0x22] @ ''Standard'' @ [CHR 0x22])"

text \<open>
  \<^verbatim>\<open>case OPEN_TAG\<close>: the state is pushed first; then the tests decide between a FEN
  tag, a game to skip and any other tag. The conjunctions are evaluated left to
  right, so the value of a \<^verbatim>\<open>Variant\<close> tag is compared only after the name matched.
  For a game to skip the pushed state is popped again.
\<close>

definition open_tag :: "string \<Rightarrow> parser \<Rightarrow> fault + parser" where
  "open_tag file p =
     (case push_state p of
        Inl f \<Rightarrow> Inl f
      | Inr p1 \<Rightarrow>
          (case fen_tag_at file (ps_data p) of
             Inl f \<Rightarrow> Inl f
           | Inr True \<Rightarrow> Inr (p1\<lparr>ps_data := ps_data p + 5, ps_state := FEN_TAG\<rparr>)
           | Inr False \<Rightarrow>
               (case variant_tag_at file (ps_data p) of
                  Inl f \<Rightarrow> Inl f
                | Inr False \<Rightarrow> Inr (p1\<lparr>ps_state := TAG\<rparr>)
                | Inr True \<Rightarrow>
                    (case standard_at file (ps_data p) of
                       Inl f \<Rightarrow> Inl f
                     | Inr True \<Rightarrow> Inr (p1\<lparr>ps_state := TAG\<rparr>)
                     | Inr False \<Rightarrow>
                         Inr (p1\<lparr>ps_stateStack := tl (ps_stateStack p1),
                                 ps_state := SKIP_GAME\<rparr>)))))"

text \<open>
  The body of the \<^verbatim>\<open>switch\<close>, one equation for each \<^verbatim>\<open>case\<close>; \<open>c\<close> is the byte at
  \<^verbatim>\<open>data\<close>.
\<close>

fun perform :: "'pos engine \<Rightarrow> string \<Rightarrow> char \<Rightarrow> parser \<Rightarrow> Step \<Rightarrow> fault + parser" where
  "perform eng file c p FAIL = error file p"
| "perform eng file c p CONTINUE = Inr p"
| "perform eng file c p GAME_START =
     (case strncmp_eq file (ps_data p - 1) ''[Event '' of
        Inl f \<Rightarrow> Inl f
      | Inr True \<Rightarrow> Inr (p\<lparr>ps_data := ps_data p - 2, ps_state := HEADER\<rparr>)
      | Inr False \<Rightarrow> Inr p)"
| "perform eng file c p OPEN_TAG = open_tag file p"
| "perform eng file c p OPEN_BRACE_COMMENT =
     (case push_state p of Inl f \<Rightarrow> Inl f | Inr p' \<Rightarrow> Inr (p'\<lparr>ps_state := BRACE_COMMENT\<rparr>))"
| "perform eng file c p READ_FEN = put_fen c p"
| "perform eng file c p CLOSE_FEN_TAG =
     (case put_fen NUL p of
        Inl f \<Rightarrow> Inl f
      | Inr p' \<Rightarrow>
          Inr (p'\<lparr>ps_state := TAG,
                  ps_stm := (if strstr (c_str (ps_fen p')) '' b '' then BLACK else ps_stm p')\<rparr>))"
| "perform eng file c p OPEN_VARIATION =
     (case push_state p of Inl f \<Rightarrow> Inl f | Inr p' \<Rightarrow> Inr (p'\<lparr>ps_state := VARIATION\<rparr>))"
| "perform eng file c p START_NAG =
     (case push_state p of
        Inl f \<Rightarrow> Inl f
      | Inr p' \<Rightarrow> Inr (p'\<lparr>ps_state := NUMERIC_ANNOTATION_GLYPH\<rparr>))"
| "perform eng file c p POP_STATE = pop_state p"
| "perform eng file c p START_MOVE_NUMBER = Inr (p\<lparr>ps_state := MOVE_NUMBER\<rparr>)"
| "perform eng file c p START_NEXT_SAN = Inr (p\<lparr>ps_state := NEXT_SAN\<rparr>)"
| "perform eng file c p CASTLE_OR_RESULT =
     (case peek file (ps_data p + 2) of
        Inl f \<Rightarrow> Inl f
      | Inr c2 \<Rightarrow> if c2 \<noteq> CHR ''0'' then start_result file p else start_read_san c p)"
| "perform eng file c p START_READ_SAN = start_read_san c p"
| "perform eng file c p READ_MOVE_CHAR = put_move c p"
| "perform eng file c p END_MOVE =
     (case put_move NUL p of
        Inl f \<Rightarrow> Inl f
      | Inr p' \<Rightarrow>
          Inr (p'\<lparr>ps_moveCnt := ps_moveCnt p' + 1,
                  ps_state := (if ps_stm p' = WHITE then NEXT_SAN else NEXT_MOVE),
                  ps_stm := toggle (ps_stm p')\<rparr>))"
| "perform eng file c p START_RESULT = start_result file p"
| "perform eng file c p END_GAME =
     (if c \<noteq> CHR 0x0A then Inr (p\<lparr>ps_state := RESULT\<rparr>)
      else
        (case finalize_game eng p of
           Inl f \<Rightarrow> Inl f
         | Inr p' \<Rightarrow> Inr (reset_game (word_of_int (ps_data p + 1)) p')))"
| "perform eng file c p TAG_IN_BRACE =
     (case strncmp_eq file (ps_data p) ''[Event '' of
        Inl f \<Rightarrow> Inl f
      | Inr False \<Rightarrow> Inr p
      | Inr True \<Rightarrow> missing_result eng p)"
| "perform eng file c p MISSING_RESULT = missing_result eng p"

text \<open>
  One round of the \<^verbatim>\<open>for\<close> loop: the token of the byte at \<^verbatim>\<open>data\<close>, the step of the
  state for it, and \<^verbatim>\<open>++data\<close>, which every way out of the \<^verbatim>\<open>switch\<close> reaches.
\<close>

definition pgn_step :: "'pos engine \<Rightarrow> string \<Rightarrow> parser \<Rightarrow> fault + parser" where
  "pgn_step eng file p =
     (case peek file (ps_data p) of
        Inl f \<Rightarrow> Inl f
      | Inr c \<Rightarrow>
          (case perform eng file c p (ToStep (ps_state p) (ToToken c)) of
             Inl f \<Rightarrow> Inl f
           | Inr p' \<Rightarrow> Inr (p'\<lparr>ps_data := ps_data p' + 1\<rparr>)))"

text \<open>
  The first \<open>n\<close> rounds of the loop \<^verbatim>\<open>for ( ; data < eof; ++data)\<close>, fewer when the
  end of the file or a fault comes first.
\<close>

fun pgn_steps :: "'pos engine \<Rightarrow> string \<Rightarrow> nat \<Rightarrow> parser \<Rightarrow> fault + parser" where
  "pgn_steps eng file 0 p = Inr p"
| "pgn_steps eng file (Suc n) p =
     (if ps_data p < int (length file)
      then (case pgn_step eng file p of
              Inl f \<Rightarrow> Inl f
            | Inr p' \<Rightarrow> pgn_steps eng file n p')
      else Inr p)"

text \<open>The bytes of the file from \<open>i\<close> on start with \<^verbatim>\<open>[Event \<close>.\<close>

definition event_at :: "string \<Rightarrow> nat \<Rightarrow> bool" where
  "event_at file i \<longleftrightarrow> take 7 (drop i file) = ''[Event ''"

text \<open>
  The loop makes progress although \<^verbatim>\<open>GAME_START\<close> steps back: the measure counts three
  for each byte ahead, four more in \<^verbatim>\<open>SKIP_GAME\<close> and two more anywhere else but in
  \<^verbatim>\<open>HEADER\<close> on a bracket followed by \<open>E\<close>, where \<^verbatim>\<open>GAME_START\<close> leaves the parser.
\<close>

definition pgn_weight :: "string \<Rightarrow> parser \<Rightarrow> int" where
  "pgn_weight file p =
     (if ps_state p = SKIP_GAME then 4
      else if ps_state p = HEADER \<and> peek file (ps_data p) = Inr CHR ''[''
              \<and> peek file (ps_data p + 1) = Inr CHR ''E'' then 0
      else 2)"

definition pgn_measure :: "string \<Rightarrow> parser \<Rightarrow> nat" where
  "pgn_measure file p = nat (3 * (int (length file) - ps_data p) + pgn_weight file p)"

subsection \<open>The loop\<close>

text \<open>
  The loop \<^verbatim>\<open>for ( ; data < eof; ++data)\<close> ends on every file: a round moves
  \<^verbatim>\<open>data\<close> forward except \<^verbatim>\<open>GAME_START\<close>, which moves it one byte back and
  leaves the parser in \<^verbatim>\<open>HEADER\<close> on the bracket of \<^verbatim>\<open>[Event \<close>, where the next round
  opens a tag. The lemmas below show that \<open>pgn_measure\<close> decreases in every round.
\<close>

lemma strncmp_eq_in_range:
  "0 \<le> i \<Longrightarrow> nat i + length lit \<le> length mem \<Longrightarrow>
   strncmp_eq mem i lit = Inr (take (length lit) (drop (nat i) mem) = lit)"
proof (induction lit arbitrary: i)
  case Nil
  show ?case by simp
next
  case (Cons c cs)
  from Cons.prems have lt: "nat i < length mem"
    by simp
  then have d: "drop (nat i) mem = mem ! nat i # drop (Suc (nat i)) mem"
    by (simp add: Cons_nth_drop_Suc)
  have n: "nat (i + 1) = Suc (nat i)"
    using Cons.prems by simp
  have "strncmp_eq mem (i + 1) cs = Inr (take (length cs) (drop (nat (i + 1)) mem) = cs)"
    using Cons.prems by (intro Cons.IH) auto
  with lt Cons.prems(1) show ?case
    by (simp add: peek_def d n)
qed

lemma strncmp_eq_True2:
  "strncmp_eq mem i (a # b # cs) = Inr True \<Longrightarrow> peek mem i = Inr a \<and> peek mem (i + 1) = Inr b"
  by (auto split: sum.splits if_splits)

lemma ToStep_GAME_START: "ToStep s tk = GAME_START \<Longrightarrow> s = SKIP_GAME"
  by (cases s) (auto split: if_splits)

lemma push_state_data: "push_state p = Inr p' \<Longrightarrow> ps_data p' = ps_data p"
  by (auto simp: push_state_def split: if_splits)

lemma pop_state_data: "pop_state p = Inr p' \<Longrightarrow> ps_data p' = ps_data p"
  by (auto simp: pop_state_def split: list.splits)

lemma put_fen_data: "put_fen c p = Inr p' \<Longrightarrow> ps_data p' = ps_data p"
  by (auto simp: put_fen_def split: if_splits)

lemma put_move_data: "put_move c p = Inr p' \<Longrightarrow> ps_data p' = ps_data p"
  by (auto simp: put_move_def split: if_splits)

lemma error_data: "error file p = Inr p' \<Longrightarrow> ps_data p' = ps_data p"
  by (auto simp: error_def split: if_splits)

lemma start_result_data: "start_result file p = Inr p' \<Longrightarrow> ps_data p' = ps_data p"
  by (auto simp: start_result_def split: if_splits sum.splits)

lemma start_read_san_data: "start_read_san c p = Inr p' \<Longrightarrow> ps_data p' = ps_data p"
  by (auto simp: start_read_san_def split: sum.splits dest: put_move_data)

lemma finalize_game_data: "finalize_game eng p = Inr p' \<Longrightarrow> ps_data p' = ps_data p"
  by (auto simp: finalize_game_def split: sum.splits prod.splits)

lemma missing_result_data: "missing_result eng p = Inr p' \<Longrightarrow> ps_data p' = ps_data p"
  by (auto simp: missing_result_def reset_game_def split: sum.splits
      dest!: finalize_game_data push_state_data)

lemma open_tag_data: "open_tag file p = Inr p' \<Longrightarrow> ps_data p \<le> ps_data p'"
  unfolding open_tag_def
  by (auto split: sum.splits bool.splits dest!: push_state_data)

lemma perform_data:
  assumes "perform eng file c p act = Inr p'"
  shows "ps_data p \<le> ps_data p'
       \<or> (act = GAME_START \<and> ps_data p' = ps_data p - 2 \<and> ps_state p' = HEADER
          \<and> peek file (ps_data p - 1) = Inr CHR ''[''
          \<and> peek file (ps_data p) = Inr CHR ''E'')"
proof (cases act)
  case FAIL
  with assms error_data show ?thesis by fastforce
next
  case CONTINUE
  with assms show ?thesis by simp
next
  case GAME_START
  show ?thesis
  proof (cases "strncmp_eq file (ps_data p - 1) ''[Event ''")
    case (Inl f)
    with assms GAME_START show ?thesis by simp
  next
    case (Inr b)
    show ?thesis
    proof (cases b)
      case True
      with Inr strncmp_eq_True2 [of "file" "ps_data p - 1" "CHR ''[''" "CHR ''E''" "''vent ''"]
      have "peek file (ps_data p - 1) = Inr CHR ''[''" "peek file (ps_data p) = Inr CHR ''E''"
        by simp_all
      with assms GAME_START Inr True show ?thesis
        by auto
    next
      case False
      with assms GAME_START Inr show ?thesis
        by auto
    qed
  qed
next
  case OPEN_TAG
  with assms open_tag_data show ?thesis by fastforce
next
  case OPEN_BRACE_COMMENT
  with assms show ?thesis
    by (auto split: sum.splits dest!: push_state_data)
next
  case READ_FEN
  with assms put_fen_data show ?thesis by fastforce
next
  case CLOSE_FEN_TAG
  with assms show ?thesis
    by (auto split: sum.splits dest!: put_fen_data)
next
  case OPEN_VARIATION
  with assms show ?thesis
    by (auto split: sum.splits dest!: push_state_data)
next
  case START_NAG
  with assms show ?thesis
    by (auto split: sum.splits dest!: push_state_data)
next
  case POP_STATE
  with assms pop_state_data show ?thesis by fastforce
next
  case START_MOVE_NUMBER
  with assms show ?thesis by auto
next
  case START_NEXT_SAN
  with assms show ?thesis by auto
next
  case CASTLE_OR_RESULT
  with assms show ?thesis
    by (auto split: sum.splits if_splits dest!: start_result_data start_read_san_data)
next
  case START_READ_SAN
  with assms start_read_san_data show ?thesis by fastforce
next
  case READ_MOVE_CHAR
  with assms put_move_data show ?thesis by fastforce
next
  case END_MOVE
  with assms show ?thesis
    by (auto split: sum.splits dest!: put_move_data)
next
  case START_RESULT
  with assms start_result_data show ?thesis by fastforce
next
  case END_GAME
  with assms show ?thesis
    by (auto simp: reset_game_def split: sum.splits if_splits dest!: finalize_game_data)
next
  case TAG_IN_BRACE
  with assms show ?thesis
    by (auto split: sum.splits bool.splits dest!: missing_result_data)
next
  case MISSING_RESULT
  with assms missing_result_data show ?thesis by fastforce
qed

lemma pgn_step_bracket_event:
  assumes "ps_state p = HEADER" "peek file (ps_data p) = Inr CHR ''[''"
    "peek file (ps_data p + 1) = Inr CHR ''E''" "pgn_step eng file p = Inr p'"
  shows "ps_state p' = TAG \<and> ps_data p' = ps_data p + 1"
proof -
  have f: "fen_tag_at file (ps_data p) = Inr False" "variant_tag_at file (ps_data p) = Inr False"
    using assms(3) by (simp_all add: fen_tag_at_def variant_tag_at_def)
  from assms(1,2,4) show ?thesis
    by (auto simp: pgn_step_def ToToken_def open_tag_def f push_state_def split: if_splits)
qed

lemma pgn_step_measure:
  assumes lt: "ps_data p < int (length file)" and st: "pgn_step eng file p = Inr p'"
  shows "pgn_measure file p' < pgn_measure file p"
proof (cases "pgn_weight file p = 0")
  case True
  then have h: "ps_state p = HEADER" "peek file (ps_data p) = Inr CHR ''[''"
    "peek file (ps_data p + 1) = Inr CHR ''E''"
    by (auto simp: pgn_weight_def split: if_splits)
  from pgn_step_bracket_event [OF h st] have "ps_state p' = TAG" "ps_data p' = ps_data p + 1"
    by simp_all
  with lt True show ?thesis
    by (simp add: pgn_measure_def pgn_weight_def)
next
  case False
  then have w: "2 \<le> pgn_weight file p"
    by (auto simp: pgn_weight_def split: if_splits)
  from st obtain c q where c: "peek file (ps_data p) = Inr c"
    and q: "perform eng file c p (ToStep (ps_state p) (ToToken c)) = Inr q"
    and p': "p' = q\<lparr>ps_data := ps_data q + 1\<rparr>"
    by (auto simp: pgn_step_def split: sum.splits)
  have w4: "pgn_weight file p' \<le> 4"
    by (simp add: pgn_weight_def)
  from perform_data [OF q] show ?thesis
  proof
    assume "ps_data p \<le> ps_data q"
    with p' lt w w4 show ?thesis
      by (simp add: pgn_measure_def)
  next
    assume r: "ToStep (ps_state p) (ToToken c) = GAME_START \<and> ps_data q = ps_data p - 2
        \<and> ps_state q = HEADER \<and> peek file (ps_data p - 1) = Inr CHR ''[''
        \<and> peek file (ps_data p) = Inr CHR ''E''"
    then have "ps_state p = SKIP_GAME"
      using ToStep_GAME_START by blast
    then have "pgn_weight file p = 4"
      by (simp add: pgn_weight_def)
    moreover from r p' have "pgn_weight file p' = 0"
      by (simp add: pgn_weight_def)
    moreover from r p' have "ps_data p' = ps_data p - 1"
      by simp
    ultimately show ?thesis
      using lt by (simp add: pgn_measure_def)
  qed
qed

text \<open>
  The loop of \<^verbatim>\<open>parse_pgn\<close> from the state \<open>p\<close> of its variables to the end of the
  file.
\<close>

function parse_loop :: "'pos engine \<Rightarrow> string \<Rightarrow> parser \<Rightarrow> fault + parser" where
  "parse_loop eng file p =
     (if ps_data p < int (length file)
      then (case pgn_step eng file p of
              Inl f \<Rightarrow> Inl f
            | Inr p' \<Rightarrow> parse_loop eng file p')
      else Inr p)"
  by pat_completeness auto
termination
  by (relation "measure (\<lambda>(eng, file, p). pgn_measure file p)")
    (auto simp: pgn_step_measure)

declare parse_loop.simps [simp del]

text \<open>The variables of \<^verbatim>\<open>parse_pgn\<close> as they are initialised, with the table it is given.\<close>

definition init_parser :: "Keys \<Rightarrow> parser" where
  "init_parser kTable =
     \<lparr>ps_stateStack = [], ps_fen = [], ps_moves = [], ps_moveCnt = 0, ps_gameCnt = 0,
      ps_fixed = 0, ps_gameOfs = 0, ps_result = 3, ps_data = 0, ps_stm = WHITE,
      ps_state = HEADER, ps_kTable = kTable, ps_diag = []\<rparr>"

text \<open>
  After the loop: \<^verbatim>\<open>if (state != ToStep[HEADER] && state != ToStep[SKIP_GAME] && end - moves)\<close>
  the pending game is replayed and counted.
\<close>

definition at_eof :: "'pos engine \<Rightarrow> parser \<Rightarrow> fault + parser" where
  "at_eof eng p =
     (if ps_state p \<noteq> HEADER \<and> ps_state p \<noteq> SKIP_GAME \<and> ps_moves p \<noteq> []
      then finalize_game eng p
      else Inr p)"

text \<open>
  \<^verbatim>\<open>parse_pgn\<close> from the state \<open>p\<close> of its variables on: the loop, the pending game,
  and the statistics \<^verbatim>\<open>stats.games\<close>, \<^verbatim>\<open>stats.moves\<close>, \<^verbatim>\<open>stats.fixed\<close>. The result
  is the statistics, the table and what has been printed.
\<close>

definition parse_from ::
  "'pos engine \<Rightarrow> string \<Rightarrow> parser \<Rightarrow> fault + (Stats \<times> Keys \<times> diagnostic list)" where
  "parse_from eng file p =
     (case parse_loop eng file p of
        Inl f \<Rightarrow> Inl f
      | Inr p1 \<Rightarrow>
          (case at_eof eng p1 of
             Inl f \<Rightarrow> Inl f
           | Inr p2 \<Rightarrow>
               Inr (\<lparr>st_games = ps_gameCnt p2, st_moves = ps_moveCnt p2,
                     st_fixed = ps_fixed p2\<rparr>, ps_kTable p2, ps_diag p2)))"

text \<open>
  \<^verbatim>\<open>parse_pgn(baseAddress, size, stats, kTable)\<close> on the mapped file \<open>file\<close>.
\<close>

definition parse_pgn ::
  "'pos engine \<Rightarrow> string \<Rightarrow> Keys \<Rightarrow> fault + (Stats \<times> Keys \<times> diagnostic list)" where
  "parse_pgn eng file kTable = parse_from eng file (init_parser kTable)"

text \<open>
  Files for concrete runs: a game of another variant followed by a standard game,
  the same with no game after it, and a game whose result ends the file.
\<close>

definition pgn_variant :: string where
  "pgn_variant =
     ''[Event '' @ [CHR 0x22] @ ''t'' @ [CHR 0x22] @ '']'' @ [CHR 0x0A]
     @ ''[Variant '' @ [CHR 0x22] @ ''Chess960'' @ [CHR 0x22] @ '']'' @ [CHR 0x0A, CHR 0x0A]
     @ ''1. e4 e5 1-0'' @ [CHR 0x0A]
     @ ''[Event '' @ [CHR 0x22] @ ''u'' @ [CHR 0x22] @ '']'' @ [CHR 0x0A, CHR 0x0A]
     @ ''1. d4 *'' @ [CHR 0x0A]"

definition pgn_variant_last :: string where
  "pgn_variant_last =
     ''[Event '' @ [CHR 0x22] @ ''t'' @ [CHR 0x22] @ '']'' @ [CHR 0x0A]
     @ ''[Variant '' @ [CHR 0x22] @ ''Chess960'' @ [CHR 0x22] @ '']'' @ [CHR 0x0A, CHR 0x0A]
     @ ''1. e4 e5 1-0'' @ [CHR 0x0A]"

definition pgn_no_newline :: string where
  "pgn_no_newline =
     ''[Event '' @ [CHR 0x22] @ ''t'' @ [CHR 0x22] @ '']'' @ [CHR 0x0A, CHR 0x0A]
     @ ''1. e4 e5 1-0''"

section \<open>Theorems\<close>

subsection \<open>Result tokens\<close>

lemma preceded_by_exclusive:
  "preceded_by mem d CHR ''1'' \<Longrightarrow> \<not> preceded_by mem d CHR ''0''"
  by (auto simp: preceded_by_def)

text \<open>
  C7. \<^verbatim>\<open>get_result\<close> at a cursor on the byte \<open>c\<close> returns 2 for a slash, 3 for an
  asterisk, 1 for a zero, 0 for a minus preceded by a one (optionally with one space
  between), 1 for a minus preceded by a zero (optionally with one space between), and
  3 in every other case: any other byte, and a minus preceded by neither (where the
  bytes read before the cursor are mapped).
\<close>

theorem get_result_table:
  assumes "peek mem d = Inr c"
  shows "(c = CHR ''/'' \<longrightarrow> get_result mem d = Inr 2)
       \<and> (c = CHR ''*'' \<longrightarrow> get_result mem d = Inr 3)
       \<and> (c = CHR ''0'' \<longrightarrow> get_result mem d = Inr 1)
       \<and> (c = CHR ''-'' \<and> preceded_by mem d CHR ''1'' \<longrightarrow> get_result mem d = Inr 0)
       \<and> (c = CHR ''-'' \<and> preceded_by mem d CHR ''0'' \<longrightarrow> get_result mem d = Inr 1)
       \<and> (c = CHR ''-'' \<and> \<not> preceded_by mem d CHR ''1'' \<and> \<not> preceded_by mem d CHR ''0''
            \<and> lookbehind_mapped mem d \<longrightarrow> get_result mem d = Inr 3)
       \<and> (c \<notin> {CHR ''/'', CHR ''*'', CHR ''0'', CHR ''-''} \<longrightarrow> get_result mem d = Inr 3)"
  using assms
  by (auto simp: get_result_def preceded_by_def lookbehind_mapped_def split: sum.splits)

theorem get_result_table_witness:
  "peek ''1-0'' 1 = Inr CHR ''-'' \<and> preceded_by ''1-0'' 1 CHR ''1''
   \<and> get_result ''1-0'' 1 = Inr 0"
proof -
  have h: "peek ''1-0'' 1 = Inr CHR ''-''"
    by (simp add: peek_def)
  have p: "preceded_by ''1-0'' 1 CHR ''1''"
    by (simp add: preceded_by_def peek_def)
  from get_result_table [OF h] p h show ?thesis
    by blast
qed

subsection \<open>Serialisation\<close>

lemma foldl_be_acc:
  "foldl (\<lambda>a b. 256 * a + unat b) a bs = a * 256 ^ length bs + be_val bs"
proof (induction bs arbitrary: a)
  case Nil
  show ?case by (simp add: be_val_def)
next
  case (Cons b bs)
  have "foldl (\<lambda>a b. 256 * a + unat b) a (b # bs) =
      (256 * a + unat b) * 256 ^ length bs + be_val bs"
    using Cons.IH [of "256 * a + unat b"] by simp
  moreover have "be_val (b # bs) = unat b * 256 ^ length bs + be_val bs"
    using Cons.IH [of "unat b"] by (simp add: be_val_def)
  ultimately show ?case
    by (simp add: algebra_simps)
qed

lemma be_val_Cons: "be_val (b # bs) = unat b * 256 ^ length bs + be_val bs"
  using foldl_be_acc [of "unat b" bs] by (simp add: be_val_def)

lemma be_val_Nil: "be_val [] = 0"
  by (simp add: be_val_def)

lemma length_write_be: "length (write_be k n) = k"
  by (induction k) simp_all

lemma be_val_write_be: "be_val (write_be k n) = unat n mod 2 ^ (8 * k)"
proof (induction k)
  case 0
  show ?case by (simp add: be_val_Nil)
next
  case (Suc k)
  have b: "unat (ucast (drop_bit (8 * k) n) :: 8 word) = unat n div 2 ^ (8 * k) mod 256"
    unfolding unsigned_ucast_eq unat_drop_bit_eq
    by (simp add: take_bit_eq_mod drop_bit_eq_div)
  have p: "(256::nat) ^ k = 2 ^ (8 * k)"
    by (simp add: power_mult)
  have "unat n mod 2 ^ (8 * Suc k) = unat n mod (2 ^ (8 * k) * 256)"
    by (simp add: power_add mult.commute)
  also have "\<dots> = 2 ^ (8 * k) * (unat n div 2 ^ (8 * k) mod 256) + unat n mod 2 ^ (8 * k)"
    by (rule mod_mult2_eq)
  finally show ?case
    by (simp add: be_val_Cons length_write_be Suc.IH b p)
qed

lemma length_write: "length (write_num (n :: 'a::len word)) = LENGTH('a) div 8"
  by (simp add: write_num_def length_write_be)

lemma be_val_write:
  "8 dvd LENGTH('a) \<Longrightarrow> be_val (write_num (n :: 'a::len word)) = unat n"
proof -
  assume "8 dvd LENGTH('a)"
  then have "8 * (LENGTH('a) div 8) = LENGTH('a)"
    by simp
  then show ?thesis
    using unsigned_less [of n, where 'a = nat]
    by (simp add: write_num_def be_val_write_be)
qed

lemma length_write_PolyEntry: "length (write_PolyEntry e) = 16"
  by (simp add: write_PolyEntry_def length_write)

lemma length_blocks: "length (concat (map write_PolyEntry es)) = 16 * length es"
  by (induction es) (simp_all add: length_write_PolyEntry)

lemma write_loop_unopened: "write_loop full prev None es = None"
  by (induction es arbitrary: prev) (auto simp: ofs_write_def)

lemma write_loop_kept:
  "write_loop full prev (Some bytes) es =
     Some (bytes @ concat (map write_PolyEntry (kept full prev es)))"
proof (induction es arbitrary: prev bytes)
  case Nil
  show ?case by simp
next
  case (Cons e es)
  show ?case
    using Cons.IH [of e "bytes @ write_PolyEntry e"] Cons.IH [of prev bytes]
    by (cases full) (auto simp: ofs_write_def SizeOfPolyEntry_def length_write_PolyEntry)
qed

lemma kept_full: "kept True prev es = es"
  by (induction es arbitrary: prev) auto

lemma collapse_Cons: "\<exists>rest. collapse (e # es) = e # rest"
  by (induction es arbitrary: e) auto

lemma kept_dedup: "kept False prev es = tl (collapse (prev # es))"
proof (induction es arbitrary: prev)
  case Nil
  show ?case by simp
next
  case (Cons e es)
  obtain rest where r: "collapse (e # es) = e # rest"
    using collapse_Cons by blast
  show ?case
    by (auto simp: Cons.IH r)
qed

lemma collapse_dummy:
  "tl (collapse (dummy # es)) = collapse (dropWhile zero_key_move es)"
proof (induction es)
  case Nil
  show ?case by simp
next
  case (Cons e es)
  then show ?case
    by (auto simp: zero_key_move_def dummy_def)
qed

lemma write_poly_file_opened:
  "write_poly_file kTable True full =
     (Some (concat (map write_PolyEntry (kept full dummy kTable))),
      of_nat (16 * length (kept full dummy kTable)))"
  by (simp add: write_poly_file_def Let_def ofs_open_def write_loop_kept tellp_def length_blocks)

text \<open>
  A file that cannot be opened is not reported: nothing is written and the size
  returned is that of \<open>-1\<close>.
\<close>

lemma write_poly_file_unopened: "write_poly_file kTable False full = (None, - 1)"
  by (simp add: write_poly_file_def Let_def ofs_open_def write_loop_unopened tellp_def)

text \<open>
  The first entry is compared with the zero-initialised dummy. A table never starts
  with a record whose key and move are both zero when \<^verbatim>\<open>parse_game\<close> built it, since
  the move of a record is the encoding of a move the engine accepted; would it, the
  records of that first group are left out.
\<close>

lemma write_poly_file_dedup_general:
  "write_poly_file kTable True False =
     (Some (concat (map write_PolyEntry (collapse (dropWhile zero_key_move kTable)))),
      of_nat (16 * length (collapse (dropWhile zero_key_move kTable))))"
  by (simp add: write_poly_file_opened kept_dedup collapse_dummy)

text \<open>
  C4. For a table that does not start with a record whose key and move are both
  zero and a file that opens, \<^verbatim>\<open>write_poly_file\<close> without \<^verbatim>\<open>full\<close> writes the
  table with consecutive
  entries of identical (key, move) collapsed to the first of each group; with
  \<^verbatim>\<open>full\<close> it writes every entry. Each entry written is a block of 16 bytes holding
  key, move, weight and learn most significant byte first, and the size returned is
  16 times the number of entries written.
\<close>

theorem write_poly_file_written:
  "(kTable = [] \<or> \<not> zero_key_move (hd kTable) \<longrightarrow>
      write_poly_file kTable True False =
        (Some (concat (map write_PolyEntry (collapse kTable))),
         of_nat (16 * length (collapse kTable))))
   \<and> write_poly_file kTable True True =
        (Some (concat (map write_PolyEntry kTable)), of_nat (16 * length kTable))
   \<and> length (write_PolyEntry e) = 16
   \<and> be_val (take 8 (write_PolyEntry e)) = unat (key e)
   \<and> be_val (take 2 (drop 8 (write_PolyEntry e))) = unat (move e)
   \<and> be_val (take 2 (drop 10 (write_PolyEntry e))) = unat (weight e)
   \<and> be_val (drop 12 (write_PolyEntry e)) = unat (learn e)"
proof -
  have b: "kTable = [] \<or> \<not> zero_key_move (hd kTable) \<Longrightarrow>
      dropWhile zero_key_move kTable = kTable"
    by (cases kTable) auto
  have c: "write_poly_file kTable True True =
      (Some (concat (map write_PolyEntry kTable)), of_nat (16 * length kTable))"
    by (simp add: write_poly_file_opened kept_full)
  have e: "be_val (take 8 (write_PolyEntry e)) = unat (key e)"
    "be_val (take 2 (drop 8 (write_PolyEntry e))) = unat (move e)"
    "be_val (take 2 (drop 10 (write_PolyEntry e))) = unat (weight e)"
    "be_val (drop 12 (write_PolyEntry e)) = unat (learn e)"
    by (simp_all add: write_PolyEntry_def length_write be_val_write)
  from b c e write_poly_file_dedup_general [of kTable] show ?thesis
    by (simp add: length_write_PolyEntry)
qed

theorem write_poly_file_written_witness:
  "write_poly_file
     [\<lparr>key = 1, move = 2, weight = 1, learn = 0\<rparr>, \<lparr>key = 1, move = 2, weight = 1, learn = 8\<rparr>,
      \<lparr>key = 1, move = 3, weight = 1, learn = 8\<rparr>]
     True False =
     (Some (write_PolyEntry \<lparr>key = 1, move = 2, weight = 1, learn = 0\<rparr>
            @ write_PolyEntry \<lparr>key = 1, move = 3, weight = 1, learn = 8\<rparr>), 32)
   \<and> be_val (take 8 (write_PolyEntry \<lparr>key = 1, move = 2, weight = 1, learn = 0\<rparr>)) = 1"
  using write_poly_file_written
    [where kTable = "[\<lparr>key = 1, move = 2, weight = 1, learn = 0\<rparr>,
        \<lparr>key = 1, move = 2, weight = 1, learn = 8\<rparr>, \<lparr>key = 1, move = 3, weight = 1, learn = 8\<rparr>]"
      and e = "\<lparr>key = 1, move = 2, weight = 1, learn = 0\<rparr>"]
  by (simp add: zero_key_move_def)

subsection \<open>Game replay\<close>

lemma mask_numerals: "(0x3FFFFFFF::64 word) = mask 30" "(0x3FFFFFFF::32 word) = mask 30" "(3 :: 32 word) = mask 2"
  by (simp_all add: mask_eq_exp_minus_1)

lemma make_learn_32: "make_learn ofs r = push_bit 30 (word_of_int r AND 3) OR (ucast (drop_bit 3 ofs) AND 0x3FFFFFFF)"
  unfolding make_learn_def mask_numerals
  apply (rule bit_word_eqI)
  apply (auto simp: bit_simps)
  done

lemma make_learn_high: "drop_bit 30 (make_learn ofs r) = word_of_int r AND 3"
  unfolding make_learn_def mask_numerals
  apply (rule bit_word_eqI)
  apply (auto simp: bit_simps)
  done



lemma make_learn_result: "uint (drop_bit 30 (make_learn ofs r)) = r mod 4"
proof -
  have "uint (take_bit 2 (word_of_int r :: 32 word)) = take_bit 2 (take_bit 32 r)"
    unfolding unsigned_take_bit_eq uint_word_of_int_eq by simp
  also have "\<dots> = r mod 4"
    by (simp add: take_bit_eq_mod mod_mod_cancel)
  finally show ?thesis
    by (simp add: make_learn_high mask_numerals take_bit_eq_mask)
qed

lemma make_learn_offset: "unat (make_learn ofs r AND 0x3FFFFFFF) = (unat ofs div 8) mod 2 ^ 30"
proof -
  have "make_learn ofs r AND mask 30 = take_bit 30 (ucast (drop_bit 3 ofs))"
    unfolding make_learn_def mask_numerals
    apply (rule bit_word_eqI)
    apply (auto simp: bit_simps)
    done
  moreover have "unat (take_bit 30 (ucast (drop_bit 3 ofs) :: 32 word))
      = take_bit 30 (take_bit 32 (drop_bit 3 (unat ofs)))"
    unfolding unsigned_take_bit_eq unsigned_ucast_eq unat_drop_bit_eq by simp
  moreover have "take_bit 30 (take_bit 32 (drop_bit 3 (unat ofs))) = (unat ofs div 8) mod 2 ^ 30"
    by (simp add: take_bit_eq_mod drop_bit_eq_div mod_mod_cancel)
  ultimately show ?thesis
    by (simp only: mask_numerals)
qed

lemma parse_game_loop_table:
  "\<not> DryRun \<Longrightarrow>
   parse_game_loop eng DryRun lrn pos st cur kTable fixed = Inr (cur', kTable', fixed') \<Longrightarrow>
   kTable' = kTable @ map (emit eng lrn) (played eng pos cur fixed)"
proof (induction eng DryRun lrn pos st cur kTable fixed rule: parse_game_loop.induct)
  case (1 eng DryRun lrn pos st cur kTable fixed)
  note run = "1.prems"(2)
  show ?case
  proof (cases "cur = []")
    case True
    have pg: "parse_game_loop eng DryRun lrn pos st cur kTable fixed = Inr ([], kTable, fixed)"
      by (subst parse_game_loop.simps) (simp add: True)
    have pl: "played eng pos cur fixed = []"
      by (subst played.simps) (simp add: True)
    from run show ?thesis
      unfolding pg pl by simp
  next
    case False
    obtain m f where sm: "san_to_move eng pos cur fixed = (m, f)"
      by (cases "san_to_move eng pos cur fixed")
    show ?thesis
    proof (cases "m = MOVE_NONE eng")
      case True
      have pg: "parse_game_loop eng DryRun lrn pos st cur kTable fixed = Inr (cur, kTable, f)"
        by (subst parse_game_loop.simps) (use False sm True in simp)
      have pl: "played eng pos cur fixed = []"
        by (subst played.simps) (use False sm True in simp)
      from run show ?thesis
        unfolding pg pl by simp
    next
      case nn: False
      show ?thesis
      proof (cases "states_size \<le> st")
        case True
        have pg: "parse_game_loop eng DryRun lrn pos st cur kTable fixed = Inl OutOfBounds"
          by (subst parse_game_loop.simps) (use False sm nn True in simp)
        from run show ?thesis
          unfolding pg by simp
      next
        case st: False
        show ?thesis
        proof (cases "m = MOVE_NULL eng")
          case True
          have pg: "parse_game_loop eng DryRun lrn pos st cur kTable fixed =
              parse_game_loop eng DryRun lrn (do_null_move eng pos) (Suc st) (next_move cur)
                kTable f"
            by (subst parse_game_loop.simps) (use False sm nn st True in simp)
          have pl: "played eng pos cur fixed =
              played eng (do_null_move eng pos) (next_move cur) f"
            by (subst played.simps) (use False sm nn True in simp)
          from "1.IH"(1) [OF False sm [symmetric] nn st True "1.prems"(1)] run
          show ?thesis
            unfolding pg pl by simp
        next
          case nl: False
          let ?e = "\<lparr>key = pos_key eng pos, move = to_polyglot eng m, weight = 1, learn = lrn\<rparr>"
          let ?pos' = "do_move eng pos m (gives_check eng pos m)"
          have pg: "parse_game_loop eng DryRun lrn pos st cur kTable fixed =
              parse_game_loop eng DryRun lrn ?pos' (Suc st) (next_move cur)
                (if \<not> DryRun then kTable @ [?e] else kTable) f"
            by (subst parse_game_loop.simps) (use False sm nn st nl in simp)
          have pl: "played eng pos cur fixed = (pos, m) # played eng ?pos' (next_move cur) f"
            by (subst played.simps) (use False sm nn nl in simp)
          from "1.IH"(2) [OF False sm [symmetric] nn st nl "1.prems"(1)] run "1.prems"(1)
          show ?thesis
            unfolding pg pl by (simp add: emit_def)
        qed
      qed
    qed
  qed
qed

lemma accepted_loop:
  "accepted eng DryRun lrn n pos st cur kTable fixed = Some (pos', st', cur', kTable', fixed') \<Longrightarrow>
   parse_game_loop eng DryRun lrn pos st cur kTable fixed =
   parse_game_loop eng DryRun lrn pos' st' cur' kTable' fixed'"
proof (induction n arbitrary: pos st cur kTable fixed)
  case 0
  then show ?case by simp
next
  case (Suc n)
  from Suc.prems have ne: "cur \<noteq> []"
    by (auto split: if_splits)
  obtain m f where sm: "san_to_move eng pos cur fixed = (m, f)"
    by (cases "san_to_move eng pos cur fixed")
  from Suc.prems ne sm have c: "m \<noteq> MOVE_NONE eng" "\<not> states_size \<le> st"
    by (auto split: if_splits)
  show ?case
  proof (cases "m = MOVE_NULL eng")
    case True
    with Suc.prems ne sm c Suc.IH show ?thesis
      by (simp add: parse_game_loop.simps [of eng DryRun lrn pos st cur])
  next
    case False
    with Suc.prems ne sm c Suc.IH show ?thesis
      by (simp add: parse_game_loop.simps [of eng DryRun lrn pos st cur])
  qed
qed

lemma accepted_prefix:
  "accepted eng DryRun lrn n pos st cur kTable fixed = Some (pos', st', cur', kTable', fixed') \<Longrightarrow>
   prefix kTable kTable'"
proof (induction n arbitrary: pos st cur kTable fixed)
  case 0
  then show ?case by simp
next
  case (Suc n)
  from Suc.prems have ne: "cur \<noteq> []"
    by (auto split: if_splits)
  obtain m f where sm: "san_to_move eng pos cur fixed = (m, f)"
    by (cases "san_to_move eng pos cur fixed")
  from Suc.prems ne sm have c: "m \<noteq> MOVE_NONE eng" "\<not> states_size \<le> st"
    by (auto split: if_splits)
  show ?case
  proof (cases "m = MOVE_NULL eng")
    case True
    with Suc.prems ne sm c Suc.IH show ?thesis
      by simp
  next
    case False
    with Suc.prems ne sm c
      Suc.IH [of "do_move eng pos m (gives_check eng pos m)" "Suc st" "next_move cur"
        "if \<not> DryRun then kTable @ [\<lparr>key = pos_key eng pos, move = to_polyglot eng m,
                                weight = 1, learn = lrn\<rparr>] else kTable" f]
    show ?thesis
      by (cases DryRun) (auto dest: append_prefixD)
  qed
qed

lemma parse_game_table:
  assumes "parse_game eng False moves kTable fen fixed gameOfs result = Inr (cur', kTable', fixed')"
  shows "kTable' = kTable @
     map (emit eng (make_learn gameOfs result)) (played eng (start_pos eng fen) moves fixed)"
  using assms parse_game_loop_table [of False eng "make_learn gameOfs result"
      "start_pos eng fen" "if fen \<noteq> [] then 1 else 0" moves kTable fixed cur' kTable' fixed']
  by (simp add: parse_game_def)

text \<open>
  C5. The records \<^verbatim>\<open>parse_game\<close> appends to the table are, in order, one for each
  move played: its key is the engine's key of the position in which the move is
  played, before \<^verbatim>\<open>do_move\<close> advances it, and its weight is 1.
\<close>

theorem parse_game_key_before_move:
  assumes "parse_game eng False moves kTable fen fixed gameOfs result = Inr (cur', kTable', fixed')"
  shows "kTable' = kTable @
           map (\<lambda>(pos, m). \<lparr>key = pos_key eng pos, move = to_polyglot eng m, weight = 1,
                             learn = make_learn gameOfs result\<rparr>)
             (played eng (start_pos eng fen) moves fixed)
       \<and> (\<forall>e \<in> set (drop (length kTable) kTable'). weight e = 1)"
proof -
  have e: "emit eng (make_learn gameOfs result) =
      (\<lambda>(pos, m). \<lparr>key = pos_key eng pos, move = to_polyglot eng m, weight = 1,
                     learn = make_learn gameOfs result\<rparr>)"
    by (auto simp: emit_def fun_eq_iff)
  from parse_game_table [OF assms] show ?thesis
    by (auto simp: e)
qed

theorem parse_game_key_before_move_witness:
  "parse_game toy_engine False (''e4'' @ [NUL] @ ''Nf6'' @ [NUL]) [] [] 0 16 0 =
     Inr ([], [\<lparr>key = 0, move = 102, weight = 1, learn = 2\<rparr>,
               \<lparr>key = 102, move = 103, weight = 1, learn = 2\<rparr>], 0)
   \<and> played toy_engine (start_pos toy_engine []) (''e4'' @ [NUL] @ ''Nf6'' @ [NUL]) 0 =
       [(0, 102), (102, 103)]"
proof -
  have r: "parse_game toy_engine False (''e4'' @ [NUL] @ ''Nf6'' @ [NUL]) [] [] 0 16 0 =
     Inr ([], [\<lparr>key = 0, move = 102, weight = 1, learn = 2\<rparr>,
               \<lparr>key = 102, move = 103, weight = 1, learn = 2\<rparr>], 0)"
    by (simp add: parse_game_def parse_game_loop.simps toy_engine_def NUL_def c_str_def
        next_move_def start_pos_def make_learn_def to_polyglot_def states_size_def)
  have p: "played toy_engine (start_pos toy_engine []) (''e4'' @ [NUL] @ ''Nf6'' @ [NUL]) 0 =
       [(0, 102), (102, 103)]"
    by (simp add: played.simps toy_engine_def NUL_def c_str_def next_move_def start_pos_def)
  from parse_game_key_before_move [OF r] r p show ?thesis
    by simp
qed

text \<open>
  C6. Every record \<^verbatim>\<open>parse_game\<close> appends for a game with result \<open>result\<close> and
  offset \<open>gameOfs\<close> carries the same learn value,
  \<^verbatim>\<open>((result & 3) << 30) | ((gameOfs >> 3) & 0x3FFFFFFF)\<close> in 32 bits: its upper two
  bits are the result modulo 4, a value in 0..3, and its lower thirty bits are the
  offset divided by 8.
\<close>

theorem parse_game_learn:
  assumes "parse_game eng False moves kTable fen fixed gameOfs result = Inr (cur', kTable', fixed')"
  shows "(\<forall>e \<in> set (drop (length kTable) kTable').
            learn e = push_bit 30 (word_of_int result AND 3)
                        OR (ucast (drop_bit 3 gameOfs) AND 0x3FFFFFFF)
          \<and> learn e = make_learn gameOfs result
          \<and> uint (drop_bit 30 (learn e)) = result mod 4
          \<and> unat (learn e AND 0x3FFFFFFF) = unat gameOfs div 8 mod 2 ^ 30
          \<and> drop_bit 30 (learn e) \<in> {0, 1, 2, 3})"
proof -
  have in4: "drop_bit 30 (make_learn gameOfs result) \<in> {0, 1, 2, 3}"
  proof -
    have "result mod 4 \<in> {0, 1, 2, 3}"
      by auto
    then have "uint (drop_bit 30 (make_learn gameOfs result)) \<in> {0, 1, 2, 3}"
      by (simp only: make_learn_result)
    then show ?thesis
      by (auto simp: word_uint_eq_iff)
  qed
  have l: "\<forall>e \<in> set (drop (length kTable) kTable'). learn e = make_learn gameOfs result"
    using parse_game_table [OF assms] by (auto simp: emit_def)
  show ?thesis
  proof (intro ballI conjI)
    fix e
    assume "e \<in> set (drop (length kTable) kTable')"
    with l have le: "learn e = make_learn gameOfs result"
      by simp
    show "learn e = push_bit 30 (word_of_int result AND 3)
        OR (ucast (drop_bit 3 gameOfs) AND 0x3FFFFFFF)"
      unfolding le by (rule make_learn_32)
    show "learn e = make_learn gameOfs result"
      by (rule le)
    show "uint (drop_bit 30 (learn e)) = result mod 4"
      unfolding le by (rule make_learn_result)
    show "unat (learn e AND 0x3FFFFFFF) = unat gameOfs div 8 mod 2 ^ 30"
      unfolding le by (rule make_learn_offset)
    show "drop_bit 30 (learn e) \<in> {0, 1, 2, 3}"
      unfolding le by (rule in4)
  qed
qed

theorem parse_game_learn_witness:
  "parse_game toy_engine False (''e4'' @ [NUL] @ ''Nf6'' @ [NUL]) [] [] 0 16 1 =
     Inr ([], [\<lparr>key = 0, move = 102, weight = 1, learn = 0x40000002\<rparr>,
               \<lparr>key = 102, move = 103, weight = 1, learn = 0x40000002\<rparr>], 0)
   \<and> (0x40000002 :: 32 word) = push_bit 30 (word_of_int 1 AND 3)
                        OR (ucast (drop_bit 3 (16 :: 64 word)) AND 0x3FFFFFFF)"
proof -
  have r: "parse_game toy_engine False (''e4'' @ [NUL] @ ''Nf6'' @ [NUL]) [] [] 0 16 1 =
     Inr ([], [\<lparr>key = 0, move = 102, weight = 1, learn = 0x40000002\<rparr>,
               \<lparr>key = 102, move = 103, weight = 1, learn = 0x40000002\<rparr>], 0)"
    by (simp add: parse_game_def parse_game_loop.simps toy_engine_def NUL_def c_str_def
        next_move_def start_pos_def make_learn_def to_polyglot_def states_size_def)
  from parse_game_learn [OF r] r show ?thesis
    by simp
qed

text \<open>
  C10. When the loop of \<^verbatim>\<open>parse_game\<close> has accepted \<open>n\<close> tokens and the engine
  rejects the next one, \<^verbatim>\<open>parse_game\<close> returns the cursor of the rejected token and
  the table exactly as it stood after the accepted tokens: the table it was given,
  followed by the records of the moves played before the failure.
\<close>

theorem parse_game_rejected_keeps_records:
  assumes "accepted eng False lrn n pos st cur kTable fixed = Some (pos', st', cur', kTable', fixed')"
    and "cur' \<noteq> []"
    and "fst (san_to_move eng pos' cur' fixed') = MOVE_NONE eng"
  shows "parse_game_loop eng False lrn pos st cur kTable fixed =
           Inr (cur', kTable', snd (san_to_move eng pos' cur' fixed'))
       \<and> prefix kTable kTable'
       \<and> kTable' = kTable @ map (emit eng lrn) (played eng pos cur fixed)"
proof -
  obtain m f where sm: "san_to_move eng pos' cur' fixed' = (m, f)"
    by (cases "san_to_move eng pos' cur' fixed'")
  have "parse_game_loop eng False lrn pos' st' cur' kTable' fixed' =
      Inr (cur', kTable', snd (san_to_move eng pos' cur' fixed'))"
    by (subst parse_game_loop.simps) (use assms(2,3) sm in simp)
  with accepted_loop [OF assms(1)]
  have r: "parse_game_loop eng False lrn pos st cur kTable fixed =
      Inr (cur', kTable', snd (san_to_move eng pos' cur' fixed'))"
    by simp
  from r accepted_prefix [OF assms(1)] parse_game_loop_table [OF _ r] show ?thesis
    by simp
qed

theorem parse_game_rejected_keeps_records_witness:
  "accepted toy_engine False 7 2 0 0 (''e4'' @ [NUL] @ ''Nf6'' @ [NUL] @ ''x'' @ [NUL] @ ''d4'' @ [NUL]) [] 0 =
     Some (307, 2, ''x'' @ [NUL] @ ''d4'' @ [NUL],
           [\<lparr>key = 0, move = 102, weight = 1, learn = 7\<rparr>,
            \<lparr>key = 102, move = 103, weight = 1, learn = 7\<rparr>], 0)
   \<and> parse_game_loop toy_engine False 7 0 0 (''e4'' @ [NUL] @ ''Nf6'' @ [NUL] @ ''x'' @ [NUL] @ ''d4'' @ [NUL]) [] 0 =
     Inr (''x'' @ [NUL] @ ''d4'' @ [NUL],
          [\<lparr>key = 0, move = 102, weight = 1, learn = 7\<rparr>,
           \<lparr>key = 102, move = 103, weight = 1, learn = 7\<rparr>], 0)"
proof -
  have a: "accepted toy_engine False 7 2 0 0 (''e4'' @ [NUL] @ ''Nf6'' @ [NUL] @ ''x'' @ [NUL] @ ''d4'' @ [NUL]) [] 0 =
     Some (307, 2, ''x'' @ [NUL] @ ''d4'' @ [NUL],
           [\<lparr>key = 0, move = 102, weight = 1, learn = 7\<rparr>,
            \<lparr>key = 102, move = 103, weight = 1, learn = 7\<rparr>], 0)"
    by (simp add: numeral_2_eq_2 toy_engine_def NUL_def c_str_def
        next_move_def to_polyglot_def states_size_def)
  have b: "''x'' @ [NUL] @ ''d4'' @ [NUL] \<noteq> []"
    by simp
  have c: "fst (san_to_move toy_engine 307 (''x'' @ [NUL] @ ''d4'' @ [NUL]) 0) = MOVE_NONE toy_engine"
    by (simp add: toy_engine_def)
  from parse_game_rejected_keeps_records [OF a b c] a show ?thesis
    by (simp add: toy_engine_def)
qed

subsection \<open>Sorting and weighting the table\<close>

lemma set_insert_by: "set (insert_by lt x ys) = insert x (set ys)"
  by (induction ys) auto

lemma set_std_sort: "set (std_sort lt xs) = set xs"
  by (induction xs) (simp_all add: std_sort_def set_insert_by)

lemma sorted_insert_by:
  assumes asym: "\<And>a b. lt a b \<Longrightarrow> \<not> lt b a"
    and trans: "\<And>a b c. \<not> lt b a \<Longrightarrow> \<not> lt c b \<Longrightarrow> \<not> lt c a"
  shows "sorted_wrt (\<lambda>a b. \<not> lt b a) ys \<Longrightarrow> sorted_wrt (\<lambda>a b. \<not> lt b a) (insert_by lt x ys)"
proof (induction ys)
  case Nil
  show ?case by simp
next
  case (Cons y ys)
  show ?case
  proof (cases "lt y x")
    case True
    with Cons asym [OF True] show ?thesis
      by (auto simp: set_insert_by)
  next
    case False
    with Cons trans [OF False] show ?thesis
      by auto
  qed
qed

lemma sorted_std_sort:
  assumes asym: "\<And>a b. lt a b \<Longrightarrow> \<not> lt b a"
    and trans: "\<And>a b c. \<not> lt b a \<Longrightarrow> \<not> lt c b \<Longrightarrow> \<not> lt c a"
  shows "sorted_wrt (\<lambda>a b. \<not> lt b a) (std_sort lt xs)"
proof (induction xs)
  case Nil
  show ?case by (simp add: std_sort_def)
next
  case (Cons x xs)
  from sorted_insert_by [of lt, OF asym trans Cons] show ?case
    by (simp add: std_sort_def)
qed

lemma freq_less_asym: "freq_less a b \<Longrightarrow> \<not> freq_less b a"
  by (auto simp: freq_less_def)

lemma freq_less_trans: "\<not> freq_less b a \<Longrightarrow> \<not> freq_less c b \<Longrightarrow> \<not> freq_less c a"
  by (auto simp: freq_less_def)

lemma not_freq_less: "(\<not> freq_less b a) = freq_ordered a b"
  by (auto simp: freq_less_def freq_ordered_def)

lemma sorted_resort_run: "sorted_wrt freq_ordered (resort_run run)"
  using sorted_std_sort [of freq_less "reweight_run run", OF freq_less_asym freq_less_trans]
  by (simp add: resort_run_def not_freq_less)

lemma length_resort_run: "length (resort_run run) = length run"
  by (simp add: resort_run_def length_std_sort reweight_run_def)

lemma key_resort_run: "e \<in> set (resort_run run) \<Longrightarrow> key e \<in> key ` set run"
  by (auto simp: resort_run_def set_std_sort reweight_run_def)

lemma map_key_const:
  "\<forall>e\<in>set xs. key e = k \<Longrightarrow> map key xs = replicate (length xs) k"
  by (induction xs) auto

lemma map_key_resort_run:
  assumes "\<forall>e\<in>set run. key e = k"
  shows "map key (resort_run run) = map key run"
proof -
  have "\<forall>e\<in>set (resort_run run). key e = k"
    using assms key_resort_run by fastforce
  then show ?thesis
    using map_key_const [of "resort_run run" k] map_key_const [OF assms]
    by (simp add: length_resort_run)
qed

lemma sorted_key_insert_by:
  "sorted (map key ys) \<Longrightarrow> sorted (map key (insert_by PolyEntry_less x ys))"
proof (induction ys)
  case Nil
  show ?case by simp
next
  case (Cons y ys)
  show ?case
  proof (cases "PolyEntry_less y x")
    case True
    then have "key y \<le> key x"
      by (auto simp: PolyEntry_less_def)
    with True Cons show ?thesis
      by (auto simp: set_insert_by)
  next
    case False
    then have "key x \<le> key y"
      by (auto simp: PolyEntry_less_def)
    with False Cons show ?thesis
      by auto
  qed
qed

lemma sorted_key_std_sort: "sorted (map key (std_sort PolyEntry_less xs))"
proof (induction xs)
  case Nil
  show ?case by (simp add: std_sort_def)
next
  case (Cons x xs)
  from sorted_key_insert_by [OF Cons] show ?case
    by (simp add: std_sort_def)
qed

lemma run_of_append: "run_of k (xs @ ys) = run_of k xs @ run_of k ys"
  by (simp add: run_of_def)

lemma run_of_other: "\<forall>e\<in>set xs. key e \<noteq> k \<Longrightarrow> run_of k xs = []"
  by (simp add: run_of_def)

lemma run_of_same: "\<forall>e\<in>set xs. key e = k \<Longrightarrow> run_of k xs = xs"
  by (simp add: run_of_def)

lemma scan_inv:
  assumes "run \<noteq> []"
    and "\<forall>e\<in>set run. key e = k0"
    and "\<forall>e\<in>set pre. key e < k0"
    and "sorted (map key rest)"
    and "\<forall>e\<in>set rest. k0 \<le> key e"
    and "\<forall>k. 3 \<le> length (run_of k pre) \<longrightarrow> sorted_wrt freq_ordered (run_of k pre)"
  shows "map key (scan pre run rest) = map key (pre @ run @ rest)
       \<and> (\<forall>k. k < key (last (run @ rest)) \<longrightarrow> 3 \<le> length (run_of k (scan pre run rest)) \<longrightarrow>
             sorted_wrt freq_ordered (run_of k (scan pre run rest)))"
  using assms
proof (induction rest arbitrary: pre run k0)
  case Nil
  have "run_of k (pre @ run) = run_of k pre" if "k < key (last run)" for k
  proof -
    from Nil.prems(1,2) have "key (last run) = k0"
      by simp
    with that Nil.prems(2) have "\<forall>e\<in>set run. key e \<noteq> k"
      by auto
    then show ?thesis
      by (simp add: run_of_append run_of_other)
  qed
  with Nil.prems(6) show ?case
    by simp
next
  case (Cons x xs)
  from Cons.prems(1,2) have lr: "key (last run) = k0"
    by simp
  show ?case
  proof (cases "key x \<noteq> key (last run)")
    case True
    let ?run' = "if 2 < length run then resort_run run else run"
    let ?pre' = "pre @ ?run'"
    from True lr Cons.prems(5) have lt: "k0 < key x"
      by auto
    have keys': "\<forall>e\<in>set ?run'. key e = k0"
      using Cons.prems(2) by (auto dest!: key_resort_run)
    have mk: "map key ?run' = map key run"
      using map_key_resort_run [OF Cons.prems(2)] by simp
    have a1: "[x] \<noteq> []" by simp
    have a2: "\<forall>e\<in>set [x]. key e = key x" by simp
    have a3: "\<forall>e\<in>set ?pre'. key e < key x"
      using Cons.prems(3) keys' lt by auto
    have a4: "sorted (map key xs)"
      using Cons.prems(4) by simp
    have a5: "\<forall>e\<in>set xs. key x \<le> key e"
      using Cons.prems(4) by auto
    have a6: "\<forall>k. 3 \<le> length (run_of k ?pre') \<longrightarrow> sorted_wrt freq_ordered (run_of k ?pre')"
    proof (intro allI impI)
      fix k
      assume len: "3 \<le> length (run_of k ?pre')"
      show "sorted_wrt freq_ordered (run_of k ?pre')"
      proof (cases "k = k0")
        case True
        have p: "run_of k pre = []"
          using Cons.prems(3) True by (auto intro: run_of_other)
        have r: "run_of k ?run' = ?run'"
          using keys' True by (auto intro: run_of_same)
        from len p r have "3 \<le> length ?run'"
          by (simp add: run_of_append)
        then have "2 < length run"
          by (auto simp: length_resort_run split: if_splits)
        with p r show ?thesis
          by (simp add: run_of_append sorted_resort_run)
      next
        case False
        have r: "run_of k ?run' = []"
          using keys' False by (auto intro: run_of_other)
        with len Cons.prems(6) show ?thesis
          by (simp add: run_of_append)
      qed
    qed
    from Cons.IH [OF a1 a2 a3 a4 a5 a6] True mk show ?thesis
      by simp
  next
    case False
    with lr have kx: "key x = k0"
      by simp
    have a1: "run @ [x] \<noteq> []" by simp
    have a2: "\<forall>e\<in>set (run @ [x]). key e = k0"
      using Cons.prems(2) kx by auto
    have a4: "sorted (map key xs)"
      using Cons.prems(4) by simp
    have a5: "\<forall>e\<in>set xs. k0 \<le> key e"
      using Cons.prems(5) by simp
    from Cons.IH [OF a1 a2 Cons.prems(3) a4 a5 Cons.prems(6)] False show ?thesis
      by simp
  qed
qed

lemma weight_loop_scan:
  "last' < idx \<Longrightarrow> idx \<le> length kTable \<Longrightarrow>
   fst (weight_loop kTable uniqueKeys last' idx) =
   scan (take last' kTable) (take (idx - last') (drop last' kTable)) (drop idx kTable)"
proof (induction kTable uniqueKeys last' idx rule: weight_loop.induct)
  case (1 kTable uniqueKeys last' idx)
  let ?run = "take (idx - last') (drop last' kTable)"
  show ?case
  proof (cases "idx < length kTable")
    case False
    then have w: "weight_loop kTable uniqueKeys last' idx = (kTable, uniqueKeys)"
      by (simp add: weight_loop.simps [of kTable uniqueKeys last' idx])
    from False "1.prems" have "idx = length kTable"
      by simp
    with "1.prems" have "scan (take last' kTable) (take (idx - last') (drop last' kTable))
        (drop idx kTable) = kTable"
      by simp
    then show ?thesis
      by (simp only: w fst_conv)
  next
    case True
    have d: "drop idx kTable = kTable ! idx # drop (Suc idx) kTable"
      using True by (simp add: Cons_nth_drop_Suc)
    have len: "length ?run = idx - last'"
      using "1.prems" by simp
    have l: "last ?run = kTable ! (idx - 1)"
    proof -
      have "?run \<noteq> []"
        using "1.prems" True by simp
      then have "last ?run = ?run ! (idx - last' - 1)"
        using len by (simp add: last_conv_nth)
      also have "\<dots> = drop last' kTable ! (idx - last' - 1)"
        using "1.prems" by simp
      also have "\<dots> = kTable ! (last' + (idx - last' - 1))"
        using "1.prems" True by simp
      finally show ?thesis
        using "1.prems" by simp
    qed
    have tk: "take idx kTable = take last' kTable @ ?run"
      using "1.prems" take_add [of last' "idx - last'" kTable] by simp
    show ?thesis
    proof (cases "key (kTable ! idx) \<noteq> key (kTable ! (idx - 1))")
      case kc: True
      show ?thesis
      proof (cases "2 < idx - last'")
        case big: True
        let ?t' = "take last' kTable @ resort_run ?run @ drop idx kTable"
        have s: "sort_by_frequency kTable last' idx = (?t', idx)"
          by (simp add: sort_by_frequency_def resort_run_def Let_def)
        have lp: "length (take last' kTable @ resort_run ?run) = idx"
          using "1.prems" by (simp add: length_resort_run)
        have lt': "length ?t' = length kTable"
          using "1.prems" by (simp add: length_resort_run)
        have t1: "take idx ?t' = take last' kTable @ resort_run ?run"
          using lp by (metis append.assoc append_eq_conv_conj)
        have t2: "drop idx ?t' = drop idx kTable"
          using lp by (metis append.assoc append_eq_conv_conj)
        have t3: "drop (idx + 1) ?t' = drop (Suc idx) kTable"
          using t2 by (metis Suc_eq_plus1 drop_drop add.commute)
        have t4: "take (idx + 1 - idx) (drop idx ?t') = [kTable ! idx]"
        proof -
          have "take (idx + 1 - idx) (drop idx ?t') = take (idx + 1 - idx) (drop idx kTable)"
            by (simp only: t2)
          also have "\<dots> = [kTable ! idx]"
            by (simp add: d)
          finally show ?thesis .
        qed
        have "fst (weight_loop ?t' (uniqueKeys + 1) idx (idx + 1)) =
            scan (take idx ?t') (take (idx + 1 - idx) (drop idx ?t')) (drop (idx + 1) ?t')"
          using "1.IH"(1) [OF True kc, of ?t' idx] big s True lt' by simp
        then have ih: "fst (weight_loop ?t' (uniqueKeys + 1) idx (idx + 1)) =
            scan (take last' kTable @ resort_run ?run) [kTable ! idx] (drop (Suc idx) kTable)"
          unfolding t1 t3 t4 .
        have step: "weight_loop kTable uniqueKeys last' idx =
            weight_loop ?t' (uniqueKeys + 1) idx (idx + 1)"
          by (subst weight_loop.simps) (use True kc big s in simp)
        have sc: "scan (take last' kTable) ?run (drop idx kTable) =
            scan (take last' kTable @ resort_run ?run) [kTable ! idx] (drop (Suc idx) kTable)"
          unfolding d using kc big True "1.prems" by (simp add: l)
        show ?thesis
          unfolding step ih sc ..
      next
        case small: False
        have t4: "take (idx + 1 - idx) (drop idx kTable) = [kTable ! idx]"
          unfolding d by simp
        have "fst (weight_loop kTable (uniqueKeys + 1) idx (idx + 1)) =
            scan (take idx kTable) (take (idx + 1 - idx) (drop idx kTable)) (drop (idx + 1) kTable)"
          using "1.IH"(1) [OF True kc, of kTable idx] small True by simp
        then have ih: "fst (weight_loop kTable (uniqueKeys + 1) idx (idx + 1)) =
            scan (take last' kTable @ ?run) [kTable ! idx] (drop (Suc idx) kTable)"
          unfolding t4 tk by simp
        have step: "weight_loop kTable uniqueKeys last' idx =
            weight_loop kTable (uniqueKeys + 1) idx (idx + 1)"
          by (subst weight_loop.simps) (use True kc small in simp)
        have sc: "scan (take last' kTable) ?run (drop idx kTable) =
            scan (take last' kTable @ ?run) [kTable ! idx] (drop (Suc idx) kTable)"
          unfolding d using kc small True "1.prems" by (simp add: l)
        show ?thesis
          unfolding step ih sc ..
      qed
    next
      case same: False
      have r: "take (idx + 1 - last') (drop last' kTable) = ?run @ [kTable ! idx]"
      proof -
        have "idx + 1 - last' = Suc (idx - last')"
          using "1.prems" by simp
        moreover have "idx - last' < length (drop last' kTable)"
          using "1.prems" True by simp
        moreover have "drop last' kTable ! (idx - last') = kTable ! idx"
          using "1.prems" True by simp
        ultimately show ?thesis
          by (simp add: take_Suc_conv_app_nth)
      qed
      have "fst (weight_loop kTable uniqueKeys last' (idx + 1)) =
          scan (take last' kTable) (take (idx + 1 - last') (drop last' kTable))
            (drop (idx + 1) kTable)"
        using "1.IH"(2) [OF True same] "1.prems" True by simp
      then have ih: "fst (weight_loop kTable uniqueKeys last' (idx + 1)) =
          scan (take last' kTable) (?run @ [kTable ! idx]) (drop (Suc idx) kTable)"
        unfolding r by simp
      have step: "weight_loop kTable uniqueKeys last' idx =
          weight_loop kTable uniqueKeys last' (idx + 1)"
        by (subst weight_loop.simps) (use True same in simp)
      have sc: "scan (take last' kTable) ?run (drop idx kTable) =
          scan (take last' kTable) (?run @ [kTable ! idx]) (drop (Suc idx) kTable)"
        unfolding d using same by (simp add: l)
      show ?thesis
        unfolding step ih sc ..
    qed
  qed
qed

lemma scan_short_runs:
  assumes "run \<noteq> []"
    and "\<forall>e\<in>set run. key e = k0"
    and "length (run_of k (pre @ run @ rest)) \<le> 2"
  shows "run_of k (scan pre run rest) = run_of k (pre @ run @ rest)"
  using assms
proof (induction rest arbitrary: pre run k0)
  case Nil
  show ?case by simp
next
  case (Cons x xs)
  from Cons.prems(1,2) have lr: "key (last run) = k0"
    by simp
  show ?case
  proof (cases "key x \<noteq> key (last run)")
    case True
    let ?run' = "if 2 < length run then resort_run run else run"
    have r: "run_of k ?run' = run_of k run"
    proof (cases "k = k0")
      case True
      with Cons.prems(2) have "run_of k run = run"
        by (auto intro: run_of_same)
      with Cons.prems(3) have "length run \<le> 2"
        by (simp add: run_of_append)
      then show ?thesis
        by simp
    next
      case False
      have "\<forall>e\<in>set ?run'. key e = k0"
        using Cons.prems(2) by (auto dest!: key_resort_run)
      with False Cons.prems(2) show ?thesis
        by (simp add: run_of_other)
    qed
    have a1: "[x] \<noteq> []" by simp
    have a2: "\<forall>e\<in>set [x]. key e = key x" by simp
    have a3: "length (run_of k ((pre @ ?run') @ [x] @ xs)) \<le> 2"
      using Cons.prems(3) r by (simp add: run_of_append)
    from Cons.IH [OF a1 a2 a3] True r show ?thesis
      by (simp add: run_of_append)
  next
    case False
    have a1: "run @ [x] \<noteq> []" by simp
    have a2: "\<forall>e\<in>set (run @ [x]). key e = k0"
      using Cons.prems(2) False lr by auto
    have a3: "length (run_of k (pre @ (run @ [x]) @ xs)) \<le> 2"
      using Cons.prems(3) by simp
    from Cons.IH [OF a1 a2 a3] False show ?thesis
      by simp
  qed
qed

lemma sorted_le_last: "sorted xs \<Longrightarrow> x \<in> set xs \<Longrightarrow> x \<le> last xs"
  by (induction xs) auto

lemma make_book_post_scan:
  "std_sort PolyEntry_less kTable = x # xs \<Longrightarrow> fst (make_book_post kTable) = scan [] [x] xs"
  using weight_loop_scan [of 0 1 "x # xs" 1]
  by (simp add: make_book_post_def)

lemma make_book_post_Nil:
  "std_sort PolyEntry_less kTable = [] \<Longrightarrow> fst (make_book_post kTable) = []"
  by (simp add: make_book_post_def weight_loop.simps [of "[]"])

lemma length_run_of: "length (run_of k xs) = length (filter (\<lambda>x. x = k) (map key xs))"
  by (induction xs) (simp_all add: run_of_def)

lemma PolyEntry_less_asym: "PolyEntry_less a b \<Longrightarrow> \<not> PolyEntry_less b a"
  by (auto simp: PolyEntry_less_def)

lemma lex_trans:
  fixes a b c :: "'a::linorder"
  shows "\<not> (b < a \<or> (b = a \<and> P)) \<Longrightarrow> \<not> (c < b \<or> (c = b \<and> Q)) \<Longrightarrow>
     (a = b \<Longrightarrow> b = c \<Longrightarrow> \<not> P \<Longrightarrow> \<not> Q \<Longrightarrow> \<not> R) \<Longrightarrow> \<not> (c < a \<or> (c = a \<and> R))"
  by auto

lemma PolyEntry_less_trans:
  "\<not> PolyEntry_less b a \<Longrightarrow> \<not> PolyEntry_less c b \<Longrightarrow> \<not> PolyEntry_less c a"
  unfolding PolyEntry_less_def
  apply (erule (1) lex_trans)
  apply (erule (1) lex_trans)
  apply (erule (1) lex_trans)
  apply auto
  done

lemma sorted_moves_of_run:
  "sorted (map move (run_of k (std_sort PolyEntry_less kTable)))"
proof -
  have "sorted_wrt (\<lambda>a b. \<not> PolyEntry_less b a) (std_sort PolyEntry_less kTable)"
    by (rule sorted_std_sort [OF PolyEntry_less_asym PolyEntry_less_trans])
  then have "sorted_wrt (\<lambda>a b. \<not> PolyEntry_less b a) (run_of k (std_sort PolyEntry_less kTable))"
    unfolding run_of_def by (rule sorted_wrt_filter)
  then have "sorted_wrt (\<lambda>a b. move a \<le> move b) (run_of k (std_sort PolyEntry_less kTable))"
    by (rule sorted_wrt_mono_rel [rotated]) (auto simp: run_of_def PolyEntry_less_def)
  then show ?thesis
    by (simp add: sorted_map)
qed

text \<open>
  C1, the claim as stated, fails: a run of two records that is not the last run of
  the table keeps the increasing move order of the global sort, with equal weights.
\<close>

theorem make_book_post_short_run_ascending:
  "fst (make_book_post [\<lparr>key = 5, move = 9, weight = 1, learn = 0\<rparr>,
                        \<lparr>key = 5, move = 7, weight = 1, learn = 8\<rparr>,
                        \<lparr>key = 6, move = 9, weight = 1, learn = 16\<rparr>]) =
     [\<lparr>key = 5, move = 7, weight = 1, learn = 8\<rparr>,
      \<lparr>key = 5, move = 9, weight = 1, learn = 0\<rparr>,
      \<lparr>key = 6, move = 9, weight = 1, learn = 16\<rparr>]
   \<and> \<not> sorted_wrt freq_ordered
        (run_of 5 (fst (make_book_post [\<lparr>key = 5, move = 9, weight = 1, learn = 0\<rparr>,
                        \<lparr>key = 5, move = 7, weight = 1, learn = 8\<rparr>,
                        \<lparr>key = 6, move = 9, weight = 1, learn = 16\<rparr>])))"
proof -
  have "fst (make_book_post [\<lparr>key = 5, move = 9, weight = 1, learn = 0\<rparr>,
                        \<lparr>key = 5, move = 7, weight = 1, learn = 8\<rparr>,
                        \<lparr>key = 6, move = 9, weight = 1, learn = 16\<rparr>]) =
     [\<lparr>key = 5, move = 7, weight = 1, learn = 8\<rparr>,
      \<lparr>key = 5, move = 9, weight = 1, learn = 0\<rparr>,
      \<lparr>key = 6, move = 9, weight = 1, learn = 16\<rparr>]"
    by (simp add: make_book_post_def std_sort_def PolyEntry_less_def weight_loop.simps)
  then show ?thesis
    by (simp add: run_of_def freq_ordered_def)
qed

text \<open>
  C1, amended. After the post-processing of \<^verbatim>\<open>make_book\<close> the table is in
  non-decreasing key order. A run of equal key of length at least 3, other than the
  run of the last key of the table, is in non-increasing weight order with ties
  broken by non-increasing move. A run of length 1 or 2 is as the global sort left
  it, in non-decreasing move order.
\<close>

theorem make_book_post_order:
  "sorted (map key (fst (make_book_post kTable)))
   \<and> (k \<noteq> key (last (fst (make_book_post kTable)))
        \<and> 3 \<le> length (run_of k (fst (make_book_post kTable)))
      \<longrightarrow> sorted_wrt freq_ordered (run_of k (fst (make_book_post kTable))))
   \<and> (length (run_of k (fst (make_book_post kTable))) \<le> 2
      \<longrightarrow> run_of k (fst (make_book_post kTable)) = run_of k (std_sort PolyEntry_less kTable)
          \<and> sorted (map move (run_of k (fst (make_book_post kTable)))))"
proof (cases "std_sort PolyEntry_less kTable")
  case Nil
  then show ?thesis
    by (simp add: make_book_post_Nil run_of_def)
next
  case (Cons x xs)
  let ?T = "fst (make_book_post kTable)"
  have T: "?T = scan [] [x] xs"
    using Cons by (rule make_book_post_scan)
  have srt: "sorted (map key (x # xs))"
    using sorted_key_std_sort [of kTable] Cons by simp
  have a1: "[x] \<noteq> []" by simp
  have a2: "\<forall>e\<in>set [x]. key e = key x" by simp
  have a3: "\<forall>e\<in>set []. key e < key x" by simp
  have a4: "sorted (map key xs)"
    using srt by simp
  have a5: "\<forall>e\<in>set xs. key x \<le> key e"
    using srt by auto
  have a6: "\<forall>k. 3 \<le> length (run_of k []) \<longrightarrow> sorted_wrt freq_ordered (run_of k [])"
    by (simp add: run_of_def)
  note inv = scan_inv [OF a1 a2 a3 a4 a5 a6]
  from inv have mk: "map key ?T = map key (x # xs)"
    by (simp add: T)
  have c1: "sorted (map key ?T)"
    using mk srt by simp
  have c2: "sorted_wrt freq_ordered (run_of k ?T)"
    if ne: "k \<noteq> key (last ?T)" and len: "3 \<le> length (run_of k ?T)"
  proof -
    have lastk: "key (last ?T) = key (last (x # xs))"
    proof -
      have "?T \<noteq> []"
        using mk by auto
      then have "key (last ?T) = last (map key ?T)"
        by (simp add: last_map)
      also have "\<dots> = key (last (x # xs))"
        unfolding mk by (simp add: last_map)
      finally show ?thesis .
    qed
    from len have "run_of k ?T \<noteq> []"
      by auto
    then obtain e where "e \<in> set (run_of k ?T)"
      by (meson last_in_set)
    then have e: "e \<in> set ?T" "key e = k"
      by (auto simp: run_of_def)
    then have "k \<in> set (map key ?T)"
      by auto
    then have "k \<in> set (map key (x # xs))"
      by (simp only: mk)
    then have "k \<le> last (map key (x # xs))"
      using srt by (rule sorted_le_last [rotated])
    moreover have "last (map key (x # xs)) = key (last (x # xs))"
      by (rule last_map) simp
    ultimately have "k \<le> key (last (x # xs))"
      by (simp only:)
    with ne lastk have "k < key (last ([x] @ xs))"
      by simp
    with inv len show ?thesis
      by (simp add: T)
  qed
  have c3: "run_of k ?T = run_of k (std_sort PolyEntry_less kTable)
      \<and> sorted (map move (run_of k ?T))"
    if len: "length (run_of k ?T) \<le> 2"
  proof -
    have "length (run_of k ([] @ [x] @ xs)) \<le> 2"
      using len mk by (simp add: length_run_of)
    from scan_short_runs [OF a1 a2 this] have "run_of k ?T = run_of k (x # xs)"
      by (simp add: T)
    then show ?thesis
      using sorted_moves_of_run [of k kTable] Cons by simp
  qed
  from c1 c2 c3 show ?thesis
    by blast
qed

theorem make_book_post_order_witness:
  "fst (make_book_post [\<lparr>key = 5, move = 7, weight = 1, learn = 0\<rparr>,
                        \<lparr>key = 5, move = 9, weight = 1, learn = 16\<rparr>,
                        \<lparr>key = 6, move = 9, weight = 1, learn = 16\<rparr>,
                        \<lparr>key = 5, move = 7, weight = 1, learn = 8\<rparr>]) =
     [\<lparr>key = 5, move = 7, weight = 43690, learn = 0\<rparr>,
      \<lparr>key = 5, move = 7, weight = 43690, learn = 8\<rparr>,
      \<lparr>key = 5, move = 9, weight = 21845, learn = 16\<rparr>,
      \<lparr>key = 6, move = 9, weight = 1, learn = 16\<rparr>]
   \<and> sorted_wrt freq_ordered
        (run_of 5 (fst (make_book_post [\<lparr>key = 5, move = 7, weight = 1, learn = 0\<rparr>,
                        \<lparr>key = 5, move = 9, weight = 1, learn = 16\<rparr>,
                        \<lparr>key = 6, move = 9, weight = 1, learn = 16\<rparr>,
                        \<lparr>key = 5, move = 7, weight = 1, learn = 8\<rparr>])))"
proof -
  have e: "fst (make_book_post [\<lparr>key = 5, move = 7, weight = 1, learn = 0\<rparr>,
                        \<lparr>key = 5, move = 9, weight = 1, learn = 16\<rparr>,
                        \<lparr>key = 6, move = 9, weight = 1, learn = 16\<rparr>,
                        \<lparr>key = 5, move = 7, weight = 1, learn = 8\<rparr>]) =
     [\<lparr>key = 5, move = 7, weight = 43690, learn = 0\<rparr>,
      \<lparr>key = 5, move = 7, weight = 43690, learn = 8\<rparr>,
      \<lparr>key = 5, move = 9, weight = 21845, learn = 16\<rparr>,
      \<lparr>key = 6, move = 9, weight = 1, learn = 16\<rparr>]"
    by (simp add: make_book_post_def std_sort_def PolyEntry_less_def weight_loop.simps
        sort_by_frequency_def reweight_run_def count_moves_def freq_weight_def freq_less_def)
  have "(5 :: 64 word) \<noteq> 6"
    by simp
  with make_book_post_order [of "[\<lparr>key = 5, move = 7, weight = 1, learn = 0\<rparr>,
                        \<lparr>key = 5, move = 9, weight = 1, learn = 16\<rparr>,
                        \<lparr>key = 6, move = 9, weight = 1, learn = 16\<rparr>,
                        \<lparr>key = 5, move = 7, weight = 1, learn = 8\<rparr>]" 5] e
  show ?thesis
    by (simp add: run_of_def)
qed

text \<open>
  C2 at a failing input: three records of one key, as three games opening with the
  same move give. The run is the last of the table, the loop never reaches a change
  of key after it, and the weights stay 1. The same run followed by a record
  with another key is weighted \<^verbatim>\<open>0xFFFF\<close>.
\<close>

theorem make_book_post_final_run_unweighted:
  "fst (make_book_post [\<lparr>key = 5, move = 7, weight = 1, learn = 0\<rparr>,
                        \<lparr>key = 5, move = 7, weight = 1, learn = 8\<rparr>,
                        \<lparr>key = 5, move = 7, weight = 1, learn = 16\<rparr>]) =
     [\<lparr>key = 5, move = 7, weight = 1, learn = 0\<rparr>,
      \<lparr>key = 5, move = 7, weight = 1, learn = 8\<rparr>,
      \<lparr>key = 5, move = 7, weight = 1, learn = 16\<rparr>]
   \<and> fst (make_book_post [\<lparr>key = 5, move = 7, weight = 1, learn = 0\<rparr>,
                        \<lparr>key = 5, move = 7, weight = 1, learn = 8\<rparr>,
                        \<lparr>key = 5, move = 7, weight = 1, learn = 16\<rparr>,
                        \<lparr>key = 6, move = 7, weight = 1, learn = 16\<rparr>]) =
     [\<lparr>key = 5, move = 7, weight = 0xFFFF, learn = 0\<rparr>,
      \<lparr>key = 5, move = 7, weight = 0xFFFF, learn = 8\<rparr>,
      \<lparr>key = 5, move = 7, weight = 0xFFFF, learn = 16\<rparr>,
      \<lparr>key = 6, move = 7, weight = 1, learn = 16\<rparr>]"
  by (simp add: make_book_post_def std_sort_def PolyEntry_less_def weight_loop.simps
      sort_by_frequency_def reweight_run_def count_moves_def freq_weight_def freq_less_def)

subsection \<open>Probing a book\<close>

lemma read_entry_examples:
  "read_entry book_same_move = (rec1, write_PolyEntry rec2)"
  "read_entry book_other_move = (rec1, write_PolyEntry rec3)"
  "read_entry (write_PolyEntry rec2) = (rec2, [])"
  "read_entry (write_PolyEntry rec3) = (rec3, [])"
  "read_entry [] = (eof_entry, [])"
  by code_simp+

lemma example_values:
  "result_bucket rec1 = 0" "result_bucket rec2 = 1" "pgn_offset rec1 = 0" "pgn_offset rec2 = 8"
  "move rec1 = 5" "move rec2 = 5" "move rec3 \<noteq> 5" "move eof_entry \<noteq> 5"
  "key rec1 = 1" "key rec3 \<noteq> 1" "key eof_entry \<noteq> 1" "weight rec1 = 1"
  by code_simp+

lemma probe_group_rec2:
  "probe_group 5 10 rec2 [] 0 [0] [Suc 0, 0, 0, 0] =
     Some (eof_entry, [], [0, 8], [Suc 0, Suc 0, 0, 0])"
  by (subst probe_group.simps) (simp add: read_entry_examples example_values)

lemma probe_group_same_move:
  "probe_group 5 10 rec1 (write_PolyEntry rec2) 0 [] [0, 0, 0, 0] =
     Some (eof_entry, [], [0, 8], [Suc 0, Suc 0, 0, 0])"
  by (subst probe_group.simps)
    (simp add: read_entry_examples example_values probe_group_rec2)

lemma probe_group_other_move:
  "probe_group 5 10 rec1 (write_PolyEntry rec3) 0 [] [0, 0, 0, 0] =
     Some (rec3, [], [0], [Suc 0, 0, 0, 0])"
  by (subst probe_group.simps) (simp add: read_entry_examples example_values)

text \<open>
  C3 at a failing input: a book of two records with different keys and the same
  move, probed at offset 0 for the first key. The run of that key is one record, a
  win at offset 0. The inner loop compares only the move, so it takes the first
  record of the next key into the group: two games, a win and a loss, offsets 0 and
  8. When the next key starts with another move, the group is the run's one record.
\<close>

theorem probe_key_crosses_key:
  "key rec1 \<noteq> key rec2
   \<and> probe_key (Some book_same_move) 0 10 0 =
       Some [\<lparr>ms_move = 5, ms_weight = 1, ms_results = [1, 1, 0, 0], ms_pgn_ofs = [0, 8]\<rparr>]
   \<and> probe_key (Some book_other_move) 0 10 0 =
       Some [\<lparr>ms_move = 5, ms_weight = 1, ms_results = [1, 0, 0, 0], ms_pgn_ofs = [0]\<rparr>]"
proof -
  have a: "key rec1 \<noteq> key rec2"
    by (simp add: rec1_def rec2_def)
  have b: "probe_key (Some book_same_move) 0 10 0 =
      Some [\<lparr>ms_move = 5, ms_weight = 1, ms_results = [1, 1, 0, 0], ms_pgn_ofs = [0, 8]\<rparr>]"
    unfolding probe_key_def
    by (subst probe_moves.simps)
      (simp add: read_entry_examples example_values probe_group_same_move)
  have c: "probe_key (Some book_other_move) 0 10 0 =
      Some [\<lparr>ms_move = 5, ms_weight = 1, ms_results = [1, 0, 0, 0], ms_pgn_ofs = [0]\<rparr>]"
    unfolding probe_key_def
    by (subst probe_moves.simps)
      (simp add: read_entry_examples example_values probe_group_other_move)
  from a b c show ?thesis
    by simp
qed

subsection \<open>The PGN parser\<close>

lemma peek_nth: "i < length file \<Longrightarrow> peek file (int i) = Inr (file ! i)"
  by (simp add: peek_def)

lemma event_atD:
  assumes "event_at file q"
  shows "q + 7 \<le> length file" "file ! q = CHR ''[''" "file ! (q + 1) = CHR ''E''"
proof -
  from assms have e: "take 7 (drop q file) = ''[Event ''"
    by (simp add: event_at_def)
  then have "length (take 7 (drop q file)) = 7"
    by simp
  then show l: "q + 7 \<le> length file"
    by simp
  from e have "take 7 (drop q file) ! 0 = CHR ''[''" "take 7 (drop q file) ! 1 = CHR ''E''"
    by simp_all
  with l show "file ! q = CHR ''[''" "file ! (q + 1) = CHR ''E''"
    by simp_all
qed

lemma strncmp_eq_take:
  "length lit = n \<Longrightarrow> i + n \<le> length mem \<Longrightarrow>
   strncmp_eq mem (int i) lit = Inr (take n (drop i mem) = lit)"
  using strncmp_eq_in_range [of "int i" lit mem] by simp

lemma ToToken_EVENT: "ToToken c = T_EVENT \<longleftrightarrow> c = CHR ''E''"
  by (auto simp: ToToken_def)

lemma pgn_steps_eof: "\<not> ps_data p < int (length file) \<Longrightarrow> pgn_steps eng file n p = Inr p"
  by (cases n) simp_all

lemma pgn_steps_add:
  "pgn_steps eng file (m + n) p =
     (case pgn_steps eng file m p of Inl f \<Rightarrow> Inl f | Inr p' \<Rightarrow> pgn_steps eng file n p')"
proof (induction m arbitrary: p)
  case 0
  show ?case by simp
next
  case (Suc m)
  show ?case
    by (cases "pgn_step eng file p") (simp_all add: Suc.IH pgn_steps_eof)
qed

lemma pgn_steps_1:
  "ps_data p < int (length file) \<Longrightarrow> pgn_steps eng file (Suc 0) p = pgn_step eng file p"
  by (cases "pgn_step eng file p") simp_all

lemma parse_loop_steps:
  "pgn_steps eng file n p = Inr p' \<Longrightarrow> parse_loop eng file p = parse_loop eng file p'"
proof (induction n arbitrary: p)
  case 0
  then show ?case by simp
next
  case (Suc n)
  show ?case
  proof (cases "ps_data p < int (length file)")
    case True
    with Suc.prems obtain p1 where s: "pgn_step eng file p = Inr p1"
      and r: "pgn_steps eng file n p1 = Inr p'"
      by (cases "pgn_step eng file p") simp_all
    have "parse_loop eng file p = parse_loop eng file p1"
      by (subst parse_loop.simps) (simp add: True s)
    with Suc.IH [OF r] show ?thesis
      by simp
  next
    case False
    with Suc.prems show ?thesis
      by simp
  qed
qed

lemma skip_step_continue:
  assumes st: "ps_state p = SKIP_GAME" and d: "ps_data p = int i" and lt: "i < length file"
    and ne: "file ! i = CHR ''E'' \<Longrightarrow> strncmp_eq file (int i - 1) ''[Event '' = Inr False"
  shows "pgn_step eng file p = Inr (p\<lparr>ps_data := int i + 1\<rparr>)"
proof (cases "file ! i = CHR ''E''")
  case True
  with st d lt ne [OF True] show ?thesis
    by (simp add: pgn_step_def peek_nth ToToken_EVENT)
next
  case False
  with st d lt show ?thesis
    by (simp add: pgn_step_def peek_nth ToToken_EVENT)
qed

lemma skip_step_event:
  assumes st: "ps_state p = SKIP_GAME" and d: "ps_data p = int q + 1" and ev: "event_at file q"
  shows "pgn_step eng file p = Inr (p\<lparr>ps_data := int q, ps_state := HEADER\<rparr>)"
proof -
  note e = event_atD [OF ev]
  have "strncmp_eq file (int q) ''[Event '' = Inr (take 7 (drop q file) = ''[Event '')"
    by (rule strncmp_eq_take) (use e(1) in simp_all)
  then have "strncmp_eq file (int q) ''[Event '' = Inr True"
    using ev by (simp only: event_at_def simp_thms)
  moreover have "peek file (int q + 1) = Inr CHR ''E''"
    using peek_nth [of "q + 1" "file"] e by (simp add: add.commute)
  ultimately show ?thesis
    using st d by (simp add: pgn_step_def ToToken_EVENT)
qed

lemma header_variant_step:
  assumes st: "ps_state p = HEADER" and d: "ps_data p = int d"
    and tag: "take 9 (drop d file) = ''[Variant ''"
    and len: "d + 19 \<le> length file"
    and val: "take 10 (drop (d + 9) file) \<noteq> [CHR 0x22] @ ''Standard'' @ [CHR 0x22]"
    and stack: "length (ps_stateStack p) < 16"
  shows "pgn_step eng file p = Inr (p\<lparr>ps_state := SKIP_GAME, ps_data := int d + 1\<rparr>)"
proof -
  from len have dd: "drop d file = file ! d # drop (Suc d) file"
    by (simp add: Cons_nth_drop_Suc)
  from tag have b: "file ! d = CHR ''[''" and t8: "take 8 (drop (Suc d) file) = ''Variant ''"
    unfolding dd by simp_all
  from len have dd1: "drop (Suc d) file = file ! Suc d # drop (Suc (Suc d)) file"
    by (simp add: Cons_nth_drop_Suc)
  from t8 have v: "file ! Suc d = CHR ''V''"
    unfolding dd1 by simp
  have pk: "peek file (int d) = Inr CHR ''[''" "peek file (int d + 1) = Inr CHR ''V''"
    using peek_nth [of d "file"] peek_nth [of "Suc d" "file"] len b v by (simp_all add: add.commute)
  have f: "fen_tag_at file (int d) = Inr False"
    by (simp add: fen_tag_at_def pk)
  have "strncmp_eq file (int (Suc d)) ''Variant '' = Inr (take 8 (drop (Suc d) file) = ''Variant '')"
    by (rule strncmp_eq_take) (use len in simp_all)
  then have "strncmp_eq file (int d + 1) ''Variant '' = Inr True"
    using t8 by (simp only: simp_thms of_nat_Suc add.commute)
  then have vt: "variant_tag_at file (int d) = Inr True"
    by (simp add: variant_tag_at_def pk)
  have "strncmp_eq file (int (d + 9)) ([CHR 0x22] @ ''Standard'' @ [CHR 0x22]) =
      Inr (take 10 (drop (d + 9) file) = [CHR 0x22] @ ''Standard'' @ [CHR 0x22])"
    by (rule strncmp_eq_take) (use len in simp_all)
  then have sa: "standard_at file (int d) = Inr False"
    using val by (simp only: standard_at_def simp_thms of_nat_add of_nat_numeral)
  have tk: "ToToken CHR ''['' = T_LEFT_BRACKET"
    by (simp add: ToToken_def)
  from st d stack show ?thesis
    by (simp add: pgn_step_def pk tk open_tag_def push_state_def f vt sa)
qed


lemma parse_loop_eof: "\<not> ps_data p < int (length file) \<Longrightarrow> parse_loop eng file p = Inr p"
  by (subst parse_loop.simps) simp

lemma idle_steps:
  assumes d: "ps_data p = int i"
    and idle: "\<forall>j. i \<le> j \<and> j < i + k \<longrightarrow>
      j < length file
      \<and> pgn_step eng file (p\<lparr>ps_data := int j\<rparr>) = Inr (p\<lparr>ps_data := int j + 1\<rparr>)"
  shows "pgn_steps eng file k p = Inr (p\<lparr>ps_data := int (i + k)\<rparr>)"
  using idle
proof (induction k)
  case 0
  show ?case
    by (simp add: d [symmetric])
next
  case (Suc k)
  have a: "pgn_steps eng file k p = Inr (p\<lparr>ps_data := int (i + k)\<rparr>)"
    by (rule Suc.IH) (use Suc.prems in simp)
  from Suc.prems have "i + k < length file
    \<and> pgn_step eng file (p\<lparr>ps_data := int (i + k)\<rparr>) = Inr (p\<lparr>ps_data := int (i + k) + 1\<rparr>)"
    by (elim allE [of _ "i + k"]) (simp del: of_nat_add)
  then have lt: "i + k < length file"
    and s: "pgn_step eng file (p\<lparr>ps_data := int (i + k)\<rparr>) = Inr (p\<lparr>ps_data := int (i + k) + 1\<rparr>)"
    by blast+
  have "pgn_steps eng file (k + Suc 0) p =
      pgn_steps eng file (Suc 0) (p\<lparr>ps_data := int (i + k)\<rparr>)"
    by (simp only: pgn_steps_add a sum.case)
  also have "\<dots> = pgn_step eng file (p\<lparr>ps_data := int (i + k)\<rparr>)"
    by (rule pgn_steps_1) (use lt in simp)
  finally show ?case
    using s by (simp add: add.commute)
qed

lemma skip_steps:
  assumes st: "ps_state p = SKIP_GAME" and d: "ps_data p = int i"
    and ok: "\<forall>j. i \<le> j \<and> j < i + k \<longrightarrow>
      j < length file
      \<and> (file ! j = CHR ''E'' \<longrightarrow> strncmp_eq file (int j - 1) ''[Event '' = Inr False)"
  shows "pgn_steps eng file k p = Inr (p\<lparr>ps_data := int (i + k)\<rparr>)"
proof (rule idle_steps [OF d], intro allI impI conjI)
  fix j
  assume j: "i \<le> j \<and> j < i + k"
  with ok show lt: "j < length file"
    by simp
  show "pgn_step eng file (p\<lparr>ps_data := int j\<rparr>) = Inr (p\<lparr>ps_data := int j + 1\<rparr>)"
    using skip_step_continue [of "p\<lparr>ps_data := int j\<rparr>" j "file" eng] st lt ok j
    by simp
qed

lemma result_steps:
  assumes st: "ps_state p = RESULT" and d: "ps_data p = int i"
    and ok: "\<forall>j. i \<le> j \<and> j < i + k \<longrightarrow> j < length file \<and> ToToken (file ! j) \<noteq> T_SPACES"
  shows "pgn_steps eng file k p = Inr (p\<lparr>ps_data := int (i + k)\<rparr>)"
proof (rule idle_steps [OF d], intro allI impI conjI)
  fix j
  assume j: "i \<le> j \<and> j < i + k"
  with ok show lt: "j < length file"
    by simp
  from ok j have "ToToken (file ! j) \<noteq> T_SPACES"
    by simp
  with st lt show "pgn_step eng file (p\<lparr>ps_data := int j\<rparr>) = Inr (p\<lparr>ps_data := int j + 1\<rparr>)"
    by (simp add: pgn_step_def peek_nth)
qed

lemma strncmp_eq_no_event:
  assumes "0 < j" "j - 1 + 7 \<le> length file" "\<not> event_at file (j - 1)"
  shows "strncmp_eq file (int j - 1) ''[Event '' = Inr False"
proof -
  have "strncmp_eq file (int (j - 1)) ''[Event '' = Inr (take 7 (drop (j - 1) file) = ''[Event '')"
    by (rule strncmp_eq_take) (use assms in simp_all)
  moreover have "int (j - 1) = int j - 1"
    using assms(1) by simp
  ultimately show ?thesis
    using assms(3) by (simp only: event_at_def simp_thms)
qed

lemma strncmp_eq_no_bracket:
  assumes "0 < j" "j - 1 < length file" "file ! (j - 1) \<noteq> CHR ''[''"
  shows "strncmp_eq file (int j - 1) ''[Event '' = Inr False"
proof -
  have "int (j - 1) = int j - 1"
    using assms(1) by simp
  with peek_nth [OF assms(2)] have "peek file (int j - 1) = Inr (file ! (j - 1))"
    by simp
  with assms(3) show ?thesis
    by simp
qed

lemma variant_tag_V:
  assumes tag: "take 9 (drop d file) = ''[Variant ''" and len: "d + 19 \<le> length file"
  shows "file ! (d + 1) = CHR ''V''"
proof -
  from len have "take 9 (drop d file) ! 1 = file ! (d + 1)"
    by simp
  with tag show ?thesis
    by simp
qed

lemma skipped_steps:
  assumes st: "ps_state p = HEADER" and d: "ps_data p = int d"
    and tag: "take 9 (drop d file) = ''[Variant ''"
    and len: "d + 19 \<le> length file"
    and val: "take 10 (drop (d + 9) file) \<noteq> [CHR 0x22] @ ''Standard'' @ [CHR 0x22]"
    and stack: "length (ps_stateStack p) < 16"
    and ok: "\<forall>j. d < j \<and> j \<le> d + k \<longrightarrow>
      j < length file
      \<and> (file ! j = CHR ''E'' \<longrightarrow> strncmp_eq file (int j - 1) ''[Event '' = Inr False)"
  shows "pgn_steps eng file (Suc k) p =
    Inr (p\<lparr>ps_state := SKIP_GAME, ps_data := int (d + Suc k)\<rparr>)"
proof -
  let ?p1 = "p\<lparr>ps_state := SKIP_GAME, ps_data := int d + 1\<rparr>"
  have s1: "pgn_step eng file p = Inr ?p1"
    by (rule header_variant_step) fact+
  have lt: "ps_data p < int (length file)"
    using d len by simp
  have "pgn_steps eng file (Suc k) p = pgn_steps eng file k ?p1"
    using lt s1 by simp
  also have "\<dots> = Inr (?p1\<lparr>ps_data := int (Suc d + k)\<rparr>)"
    by (rule skip_steps) (use ok in auto)
  finally show ?thesis
    by simp
qed

lemma parse_from_steps:
  "pgn_steps eng file n p = Inr p' \<Longrightarrow> parse_from eng file p = parse_from eng file p'"
  using parse_loop_steps [of eng "file" n p p'] by (simp add: parse_from_def)

text \<open>
  C8. Let the parser be in \<^verbatim>\<open>HEADER\<close>, with room on the state stack, at the bracket
  of a tag \<^verbatim>\<open>[Variant \<close> whose value is not \<^verbatim>\<open>"Standard"\<close>. When \<open>q\<close> is the next
  place after it where \<^verbatim>\<open>[Event \<close> stands, the parser is in \<^verbatim>\<open>SKIP_GAME\<close> after
  each of the rounds up to that place, with every other variable as it was (no record
  added to the table, nothing printed, the game counter unchanged), and the round
  after them leaves it in \<^verbatim>\<open>HEADER\<close> at the bracket \<open>q\<close>, so that \<^verbatim>\<open>parse_pgn\<close>
  goes on from there as from the state before the tag. When \<^verbatim>\<open>[Event \<close> stands nowhere
  after the tag (and no bracket among the last six bytes, where the comparison would
  read past the file), \<^verbatim>\<open>parse_pgn\<close> returns the statistics, the table and the
  diagnostics as they were before the tag: the game is not counted at the end of the
  file either.
\<close>

theorem variant_game_skipped:
  assumes st: "ps_state p = HEADER" and d: "ps_data p = int d"
    and tag: "take 9 (drop d file) = ''[Variant ''"
    and len: "d + 19 \<le> length file"
    and val: "take 10 (drop (d + 9) file) \<noteq> [CHR 0x22] @ ''Standard'' @ [CHR 0x22]"
    and stack: "length (ps_stateStack p) < 16"
  shows "(d < q \<and> event_at file q \<and> (\<forall>j\<in>{d<..<q}. \<not> event_at file j) \<longrightarrow>
            (\<forall>k\<in>{1..q - d + 1}. pgn_steps eng file k p =
                Inr (p\<lparr>ps_state := SKIP_GAME, ps_data := int (d + k)\<rparr>))
            \<and> pgn_steps eng file (q - d + 2) p = Inr (p\<lparr>ps_data := int q\<rparr>)
            \<and> parse_from eng file p = parse_from eng file (p\<lparr>ps_data := int q\<rparr>))
       \<and> ((\<forall>j\<in>{d<..<length file}.
              \<not> event_at file j \<and> (length file < j + 7 \<longrightarrow> file ! j \<noteq> CHR ''['')) \<longrightarrow>
            parse_from eng file p =
              Inr (\<lparr>st_games = ps_gameCnt p, st_moves = ps_moveCnt p, st_fixed = ps_fixed p\<rparr>,
                   ps_kTable p, ps_diag p))"
proof (intro conjI impI)
  assume q: "d < q \<and> event_at file q \<and> (\<forall>j\<in>{d<..<q}. \<not> event_at file j)"
  then have ev: "event_at file q" and dq: "d < q"
    by simp_all
  note e = event_atD [OF ev]
  have v: "file ! (d + 1) = CHR ''V''"
    by (rule variant_tag_V) fact+
  have ok: "j < length file
      \<and> (file ! j = CHR ''E'' \<longrightarrow> strncmp_eq file (int j - 1) ''[Event '' = Inr False)"
    if j: "d < j" "j \<le> q" for j
  proof
    from j e(1) show "j < length file"
      by simp
    show "file ! j = CHR ''E'' \<longrightarrow> strncmp_eq file (int j - 1) ''[Event '' = Inr False"
    proof
      assume E: "file ! j = CHR ''E''"
      with v have "j \<noteq> d + 1"
        by auto
      with j have "j - 1 \<in> {d<..<q}"
        by auto
      with q have "\<not> event_at file (j - 1)"
        by blast
      moreover from j e(1) have "0 < j" "j - 1 + 7 \<le> length file"
        by simp_all
      ultimately show "strncmp_eq file (int j - 1) ''[Event '' = Inr False"
        by (intro strncmp_eq_no_event)
    qed
  qed
  have run: "pgn_steps eng file (Suc k) p =
      Inr (p\<lparr>ps_state := SKIP_GAME, ps_data := int (d + Suc k)\<rparr>)" if "k \<le> q - d" for k
    by (rule skipped_steps [OF st d tag len val stack]) (use that ok in auto)
  show "\<forall>k\<in>{1..q - d + 1}. pgn_steps eng file k p =
      Inr (p\<lparr>ps_state := SKIP_GAME, ps_data := int (d + k)\<rparr>)"
  proof
    fix k
    assume "k \<in> {1..q - d + 1}"
    then obtain k' where "k = Suc k'" "k' \<le> q - d"
      by (cases k) auto
    with run [of k'] show "pgn_steps eng file k p =
        Inr (p\<lparr>ps_state := SKIP_GAME, ps_data := int (d + k)\<rparr>)"
      by simp
  qed
  let ?p' = "p\<lparr>ps_state := SKIP_GAME, ps_data := int q + 1\<rparr>"
  have a: "pgn_steps eng file (Suc (q - d)) p = Inr ?p'"
    using run [of "q - d"] dq by simp
  have "pgn_steps eng file (Suc (q - d) + Suc 0) p = pgn_steps eng file (Suc 0) ?p'"
    by (simp only: pgn_steps_add a sum.case)
  also have "\<dots> = pgn_step eng file ?p'"
    by (rule pgn_steps_1) (use e(1) in simp)
  also have "\<dots> = Inr (?p'\<lparr>ps_data := int q, ps_state := HEADER\<rparr>)"
    by (rule skip_step_event) (use ev in simp_all)
  also have "?p'\<lparr>ps_data := int q, ps_state := HEADER\<rparr> = p\<lparr>ps_data := int q\<rparr>"
    using st by (cases p) simp
  finally show steps: "pgn_steps eng file (q - d + 2) p = Inr (p\<lparr>ps_data := int q\<rparr>)"
    by simp
  show "parse_from eng file p = parse_from eng file (p\<lparr>ps_data := int q\<rparr>)"
    using parse_loop_steps [OF steps] by (simp add: parse_from_def)
next
  assume h: "\<forall>j\<in>{d<..<length file}.
      \<not> event_at file j \<and> (length file < j + 7 \<longrightarrow> file ! j \<noteq> CHR ''['')"
  have v: "file ! (d + 1) = CHR ''V''"
    by (rule variant_tag_V) fact+
  have ok: "j < length file
      \<and> (file ! j = CHR ''E'' \<longrightarrow> strncmp_eq file (int j - 1) ''[Event '' = Inr False)"
    if j: "d < j" "j < length file" for j
  proof
    from j show "j < length file"
      by simp
    show "file ! j = CHR ''E'' \<longrightarrow> strncmp_eq file (int j - 1) ''[Event '' = Inr False"
    proof
      assume E: "file ! j = CHR ''E''"
      with v have "j \<noteq> d + 1"
        by auto
      with j have "j - 1 \<in> {d<..<length file}"
        by auto
      with h have n: "\<not> event_at file (j - 1)"
        and b: "length file < j - 1 + 7 \<longrightarrow> file ! (j - 1) \<noteq> CHR ''[''"
        by blast+
      from j have j0: "0 < j" "j - 1 < length file"
        by simp_all
      show "strncmp_eq file (int j - 1) ''[Event '' = Inr False"
      proof (cases "file ! (j - 1) = CHR ''[''")
        case True
        with b have "j - 1 + 7 \<le> length file"
          by auto
        with j0 n show ?thesis
          by (intro strncmp_eq_no_event)
      next
        case False
        with j0 show ?thesis
          by (intro strncmp_eq_no_bracket)
      qed
    qed
  qed
  let ?k = "length file - d - 1"
  let ?p' = "p\<lparr>ps_state := SKIP_GAME, ps_data := int (length file)\<rparr>"
  have "pgn_steps eng file (Suc ?k) p =
      Inr (p\<lparr>ps_state := SKIP_GAME, ps_data := int (d + Suc ?k)\<rparr>)"
    by (rule skipped_steps [OF st d tag len val stack]) (use ok len in auto)
  moreover have "d + Suc ?k = length file"
    using len by simp
  ultimately have steps: "pgn_steps eng file (Suc ?k) p = Inr ?p'"
    by simp
  have "parse_loop eng file p = parse_loop eng file ?p'"
    by (rule parse_loop_steps [OF steps])
  also have "\<dots> = Inr ?p'"
    by (rule parse_loop_eof) simp
  finally show "parse_from eng file p =
      Inr (\<lparr>st_games = ps_gameCnt p, st_moves = ps_moveCnt p, st_fixed = ps_fixed p\<rparr>,
           ps_kTable p, ps_diag p)"
    by (simp add: parse_from_def at_eof_def)
qed

theorem variant_game_skipped_witness:
  "pgn_steps toy_engine pgn_variant 12 (init_parser []) = Inr ((init_parser [])\<lparr>ps_data := 12\<rparr>)
   \<and> pgn_steps toy_engine pgn_variant 37 ((init_parser [])\<lparr>ps_data := 12\<rparr>) =
       Inr ((init_parser [])\<lparr>ps_data := 47\<rparr>)
   \<and> parse_pgn toy_engine pgn_variant [] =
       Inr (\<lparr>st_games = 1, st_moves = 1, st_fixed = 0\<rparr>,
            [\<lparr>key = 0, move = 102, weight = 1, learn = 0xC0000000\<rparr>], [])
   \<and> parse_pgn toy_engine pgn_variant_last [] =
       Inr (\<lparr>st_games = 0, st_moves = 0, st_fixed = 0\<rparr>, [], [])"
proof -
  let ?p = "(init_parser [])\<lparr>ps_data := 12\<rparr>"
  have s: "pgn_steps toy_engine pgn_variant 12 (init_parser []) = Inr ?p"
    by code_simp
  have s': "pgn_steps toy_engine pgn_variant_last 12 (init_parser []) = Inr ?p"
    by code_simp
  have st: "ps_state ?p = HEADER" "ps_data ?p = int 12" "length (ps_stateStack ?p) < 16"
    by (simp_all add: init_parser_def)
  have f: "take 9 (drop 12 pgn_variant) = ''[Variant ''" "12 + 19 \<le> length pgn_variant"
    "take 10 (drop (12 + 9) pgn_variant) \<noteq> [CHR 0x22] @ ''Standard'' @ [CHR 0x22]"
    "12 < (47::nat) \<and> event_at pgn_variant 47 \<and> (\<forall>j\<in>{12<..<47}. \<not> event_at pgn_variant j)"
    by code_simp+
  have f': "take 9 (drop 12 pgn_variant_last) = ''[Variant ''" "12 + 19 \<le> length pgn_variant_last"
    "take 10 (drop (12 + 9) pgn_variant_last) \<noteq> [CHR 0x22] @ ''Standard'' @ [CHR 0x22]"
    "\<forall>j\<in>{12<..<length pgn_variant_last}. \<not> event_at pgn_variant_last j
        \<and> (length pgn_variant_last < j + 7 \<longrightarrow> pgn_variant_last ! j \<noteq> CHR ''['')"
    by code_simp+
  have r: "parse_from toy_engine pgn_variant ((init_parser [])\<lparr>ps_data := 47\<rparr>) =
      Inr (\<lparr>st_games = 1, st_moves = 1, st_fixed = 0\<rparr>,
           [\<lparr>key = 0, move = 102, weight = 1, learn = 0xC0000000\<rparr>], [])"
    by code_simp
  from variant_game_skipped [OF st(1,2) f(1,2,3) st(3), of 47 toy_engine] f(4)
  have a: "pgn_steps toy_engine pgn_variant 37 ?p = Inr ((init_parser [])\<lparr>ps_data := 47\<rparr>)"
    and b: "parse_from toy_engine pgn_variant ?p =
       parse_from toy_engine pgn_variant ((init_parser [])\<lparr>ps_data := 47\<rparr>)"
    by simp_all
  from variant_game_skipped [OF st(1,2) f'(1,2,3) st(3), of 0 toy_engine] f'(4)
  have c: "parse_from toy_engine pgn_variant_last ?p =
      Inr (\<lparr>st_games = 0, st_moves = 0, st_fixed = 0\<rparr>, [], [])"
    by (simp add: init_parser_def)
  from s a b c r parse_from_steps [OF s] parse_from_steps [OF s'] show ?thesis
    by (simp add: parse_pgn_def)
qed

text \<open>
  C9. When the loop of \<^verbatim>\<open>parse_pgn\<close> ends in a state \<open>p\<close> other than \<^verbatim>\<open>HEADER\<close> and
  \<^verbatim>\<open>SKIP_GAME\<close>: with an empty moves buffer \<^verbatim>\<open>parse_pgn\<close> returns the statistics
  and the table of \<open>p\<close>, the game not counted; with moves in the buffer it returns
  what \<^verbatim>\<open>parse_game\<close> makes of them, and one game more. In particular, when the
  parser has reached \<^verbatim>\<open>RESULT\<close> and no byte of the rest of the file is a space token
  (no newline ends the result), the loop ends in \<^verbatim>\<open>RESULT\<close> with the buffers as they
  were, which is such a state.
\<close>

theorem parse_pgn_pending_at_eof:
  "(parse_loop eng file (init_parser kTable) = Inr p
      \<and> ps_state p \<noteq> HEADER \<and> ps_state p \<noteq> SKIP_GAME \<longrightarrow>
      (ps_moves p = [] \<longrightarrow>
         parse_pgn eng file kTable =
           Inr (\<lparr>st_games = ps_gameCnt p, st_moves = ps_moveCnt p, st_fixed = ps_fixed p\<rparr>,
                ps_kTable p, ps_diag p))
      \<and> (ps_moves p \<noteq> []
           \<and> parse_game eng False (ps_moves p) (ps_kTable p) (ps_fen p) (ps_fixed p)
                (ps_gameOfs p) (ps_result p) = Inr (cur, kTable', fixed') \<longrightarrow>
         parse_pgn eng file kTable =
           Inr (\<lparr>st_games = ps_gameCnt p + 1, st_moves = ps_moveCnt p, st_fixed = fixed'\<rparr>,
                kTable',
                if cur \<noteq> [] then ps_diag p @ [Wrong_move_notation cur] else ps_diag p)))
   \<and> (pgn_steps eng file n (init_parser kTable) = Inr r
        \<and> ps_state r = RESULT \<and> ps_data r = int i \<and> i \<le> length file
        \<and> (\<forall>j\<in>{i..<length file}. ToToken (file ! j) \<noteq> T_SPACES) \<longrightarrow>
      parse_loop eng file (init_parser kTable) = Inr (r\<lparr>ps_data := int (length file)\<rparr>))"
proof (intro conjI impI)
  assume "parse_loop eng file (init_parser kTable) = Inr p
      \<and> ps_state p \<noteq> HEADER \<and> ps_state p \<noteq> SKIP_GAME"
    and "ps_moves p = []"
  then show "parse_pgn eng file kTable =
      Inr (\<lparr>st_games = ps_gameCnt p, st_moves = ps_moveCnt p, st_fixed = ps_fixed p\<rparr>,
           ps_kTable p, ps_diag p)"
    by (simp add: parse_pgn_def parse_from_def at_eof_def)
next
  assume "parse_loop eng file (init_parser kTable) = Inr p
      \<and> ps_state p \<noteq> HEADER \<and> ps_state p \<noteq> SKIP_GAME"
    and "ps_moves p \<noteq> []
      \<and> parse_game eng False (ps_moves p) (ps_kTable p) (ps_fen p) (ps_fixed p)
           (ps_gameOfs p) (ps_result p) = Inr (cur, kTable', fixed')"
  then show "parse_pgn eng file kTable =
      Inr (\<lparr>st_games = ps_gameCnt p + 1, st_moves = ps_moveCnt p, st_fixed = fixed'\<rparr>,
           kTable',
           if cur \<noteq> [] then ps_diag p @ [Wrong_move_notation cur] else ps_diag p)"
    by (simp add: parse_pgn_def parse_from_def at_eof_def finalize_game_def)
next
  assume h: "pgn_steps eng file n (init_parser kTable) = Inr r
      \<and> ps_state r = RESULT \<and> ps_data r = int i \<and> i \<le> length file
      \<and> (\<forall>j\<in>{i..<length file}. ToToken (file ! j) \<noteq> T_SPACES)"
  let ?r' = "r\<lparr>ps_data := int (length file)\<rparr>"
  have "pgn_steps eng file (length file - i) r = Inr (r\<lparr>ps_data := int (i + (length file - i))\<rparr>)"
    by (rule result_steps) (use h in auto)
  with h have steps: "pgn_steps eng file (length file - i) r = Inr ?r'"
    by simp
  from h have "pgn_steps eng file n (init_parser kTable) = Inr r"
    by simp
  then have "parse_loop eng file (init_parser kTable) = parse_loop eng file r"
    by (rule parse_loop_steps)
  also have "\<dots> = parse_loop eng file ?r'"
    by (rule parse_loop_steps [OF steps])
  also have "\<dots> = Inr ?r'"
    by (rule parse_loop_eof) simp
  finally show "parse_loop eng file (init_parser kTable) = Inr ?r'" .
qed

theorem parse_pgn_pending_at_eof_witness:
  "pgn_steps toy_engine pgn_no_newline 24 (init_parser []) =
     Inr \<lparr>ps_stateStack = [], ps_fen = [], ps_moves = ''e4'' @ [NUL] @ ''e5'' @ [NUL],
          ps_moveCnt = 2, ps_gameCnt = 0, ps_fixed = 0, ps_gameOfs = 0, ps_result = 0,
          ps_data = 24, ps_stm = WHITE, ps_state = RESULT, ps_kTable = [], ps_diag = []\<rparr>
   \<and> parse_pgn toy_engine pgn_no_newline [] =
       Inr (\<lparr>st_games = 1, st_moves = 2, st_fixed = 0\<rparr>,
            [\<lparr>key = 0, move = 102, weight = 1, learn = 0\<rparr>,
             \<lparr>key = 102, move = 102, weight = 1, learn = 0\<rparr>], [])"
proof -
  let ?r = "\<lparr>ps_stateStack = [], ps_fen = [], ps_moves = ''e4'' @ [NUL] @ ''e5'' @ [NUL],
          ps_moveCnt = 2, ps_gameCnt = 0, ps_fixed = 0, ps_gameOfs = 0, ps_result = 0,
          ps_data = 24, ps_stm = WHITE, ps_state = RESULT, ps_kTable = [], ps_diag = []\<rparr>"
  have s: "pgn_steps toy_engine pgn_no_newline 24 (init_parser []) = Inr ?r"
    by code_simp
  have f: "ps_state ?r = RESULT" "ps_data ?r = int 24" "24 \<le> length pgn_no_newline"
    "\<forall>j\<in>{24..<length pgn_no_newline}. ToToken (pgn_no_newline ! j) \<noteq> T_SPACES"
    by code_simp+
  have l: "length pgn_no_newline = 25"
    by code_simp
  have g: "parse_game toy_engine False (''e4'' @ [NUL] @ ''e5'' @ [NUL]) [] [] 0 0 0 =
      Inr ([], [\<lparr>key = 0, move = 102, weight = 1, learn = 0\<rparr>,
                \<lparr>key = 102, move = 102, weight = 1, learn = 0\<rparr>], 0)"
    by (simp add: parse_game_def parse_game_loop.simps toy_engine_def NUL_def c_str_def
        next_move_def start_pos_def make_learn_def to_polyglot_def states_size_def)
  note t = parse_pgn_pending_at_eof [of toy_engine pgn_no_newline "[]" _ _ _ _ 24 ?r 24]
  from t s f have e: "parse_loop toy_engine pgn_no_newline (init_parser []) =
      Inr (?r\<lparr>ps_data := int (length pgn_no_newline)\<rparr>)"
    by blast
  from parse_pgn_pending_at_eof
    [of toy_engine pgn_no_newline "[]" "?r\<lparr>ps_data := int (length pgn_no_newline)\<rparr>"
      "[]" "[\<lparr>key = 0, move = 102, weight = 1, learn = 0\<rparr>,
             \<lparr>key = 102, move = 102, weight = 1, learn = 0\<rparr>]" 0] e g s
  show ?thesis
    by simp
qed

end
